theory Spec2Isabelle
  imports Complex_Main
begin

section \<open>Data model (types.ts, poseService)\<close>

text \<open>
  Coordinates and times are JavaScript numbers. The values the pose source and the
  video clock deliver are finite doubles; they are modelled as the reals they denote, and
  on them the comparisons of the source agree with the order of the reals. The literal
  \<open>Infinity\<close> that the running-minimum comparisons fall back to is modelled by \<open>None\<close>
  (see \<open>ltOrInfinity\<close>); a division whose divisor is zero, which yields \<open>NaN\<close> or an
  infinity in the source, is modelled by \<open>None\<close> as well (see \<open>jsDiv\<close>).
\<close>

record NormalizedLandmark =
  x :: real
  y :: real
  z :: real

record LandmarkFrame =
  time :: real
  landmarks :: "NormalizedLandmark list"

text \<open>
  \<open>analyzeKinematics\<close> compares frames by object identity (\<open>poseData.indexOf(frame)\<close>),
  so a pose buffer is a list of references into a store of frame objects. Two positions
  of the buffer may hold the same object, and two distinct objects may have equal
  contents.
\<close>

type_synonym ref = nat
type_synonym heap = "ref \<Rightarrow> LandmarkFrame"
type_synonym PoseData = "ref list"

record KeyMoments =
  Serve_Start :: "real option"
  Toss_Peak :: "real option"
  Trophy_Pose :: "real option"
  Contact_Point :: "real option"

datatype error = TypeError

text \<open>\<open>xs[i]\<close> on an array: \<open>undefined\<close> (here \<open>None\<close>) out of range.\<close>

definition elemAt :: "'a list \<Rightarrow> nat \<Rightarrow> 'a option" where
  "elemAt xs i = (if i < length xs then Some (xs ! i) else None)"

text \<open>\<open>Array.prototype.indexOf\<close>: the first position holding the element, or \<open>-1\<close>.\<close>

fun indexOf :: "'a list \<Rightarrow> 'a \<Rightarrow> int" where
  "indexOf [] a = -1"
| "indexOf (b # bs) a =
     (if b = a then 0 else (let r = indexOf bs a in if r = -1 then -1 else r + 1))"

section \<open>Double-precision arithmetic\<close>

text \<open>
  The elbow angle and the wrist distance are computed in double-precision arithmetic:
  every operation rounds, a square can underflow to zero or overflow, and \<open>Math.acos\<close>
  and \<open>Math.pow\<close> are only approximated by an engine. The results decide branches,
  so the model does not replace them by exact real arithmetic. It takes the arithmetic
  of the engine as a parameter: a type \<open>'n\<close> of number values (doubles, with the
  infinities and \<open>NaN\<close>) and the operations the source uses on them. \<open>flit r\<close> is the
  number value nearest to the real \<open>r\<close>: the value itself for a coordinate, the value a
  literal such as \<open>0.02\<close> denotes, and \<open>Math.PI\<close> for \<open>pi\<close>. Whatever is proved of the
  model for every such parameter holds of the source with the arithmetic of its engine.
\<close>

record 'n FloatOps =
  flit :: "real \<Rightarrow> 'n"
  fsub :: "'n \<Rightarrow> 'n \<Rightarrow> 'n"
  fadd :: "'n \<Rightarrow> 'n \<Rightarrow> 'n"
  fmul :: "'n \<Rightarrow> 'n \<Rightarrow> 'n"
  fdiv :: "'n \<Rightarrow> 'n \<Rightarrow> 'n"
  fpow :: "'n \<Rightarrow> 'n \<Rightarrow> 'n"
  fsqrt :: "'n \<Rightarrow> 'n"
  facos :: "'n \<Rightarrow> 'n"
  flt :: "'n \<Rightarrow> 'n \<Rightarrow> bool"
  fgt :: "'n \<Rightarrow> 'n \<Rightarrow> bool"
  feq :: "'n \<Rightarrow> 'n \<Rightarrow> bool"

section \<open>Kinematic key-moment extractor (analyzeKinematics)\<close>

definition LEFT_WRIST :: nat where "LEFT_WRIST = 15"
definition RIGHT_WRIST :: nat where "RIGHT_WRIST = 16"
definition RIGHT_SHOULDER :: nat where "RIGHT_SHOULDER = 12"
definition RIGHT_ELBOW :: nat where "RIGHT_ELBOW = 14"

text \<open>
  \<open>cur?.landmarks[j].y ?? Infinity\<close>: \<open>Inr None\<close> stands for \<open>Infinity\<close> (no frame
  chosen so far); reading \<open>.y\<close> of a missing landmark of a chosen frame throws.
\<close>

definition yOrInfinity :: "heap \<Rightarrow> nat \<Rightarrow> ref option \<Rightarrow> error + real option" where
  "yOrInfinity h j cur =
     (case cur of
        None \<Rightarrow> Inr None
      | Some f \<Rightarrow>
          (case elemAt (landmarks (h f)) j of
             None \<Rightarrow> Inl TypeError
           | Some w \<Rightarrow> Inr (Some (y w))))"

text \<open>\<open>a < b\<close> where \<open>b\<close> is a finite number or \<open>Infinity\<close> (\<open>None\<close>).\<close>

definition ltOrInfinity :: "real \<Rightarrow> real option \<Rightarrow> bool" where
  "ltOrInfinity a b = (case b of None \<Rightarrow> True | Some c \<Rightarrow> a < c)"

text \<open>The Toss Peak pass: \<open>for (const frame of poseData)\<close> with the running frame.\<close>

fun tossLoop :: "heap \<Rightarrow> ref list \<Rightarrow> ref option \<Rightarrow> error + ref option" where
  "tossLoop h [] tossPeakFrame = Inr tossPeakFrame"
| "tossLoop h (frame # rest) tossPeakFrame =
     (case elemAt (landmarks (h frame)) LEFT_WRIST of
        None \<Rightarrow> tossLoop h rest tossPeakFrame
      | Some leftWrist \<Rightarrow>
          (case yOrInfinity h LEFT_WRIST tossPeakFrame of
             Inl e \<Rightarrow> Inl e
           | Inr bound \<Rightarrow>
               if ltOrInfinity (y leftWrist) bound
               then tossLoop h rest (Some frame)
               else tossLoop h rest tossPeakFrame))"

text \<open>
  The body of the Trophy Pose loop for one frame: \<open>True\<close> when the frame is taken
  (\<open>trophyPoseFrame = frame; break\<close>), \<open>False\<close> when the loop goes on (a joint is
  missing, the \<open>continue\<close> on a zero magnitude, or the angle test fails).
\<close>

definition trophyTest :: "'n FloatOps \<Rightarrow> LandmarkFrame \<Rightarrow> bool" where
  "trophyTest ops frame =
     (case elemAt (landmarks frame) RIGHT_SHOULDER of
        None \<Rightarrow> False
      | Some rShoulder \<Rightarrow>
     (case elemAt (landmarks frame) RIGHT_ELBOW of
        None \<Rightarrow> False
      | Some rElbow \<Rightarrow>
     (case elemAt (landmarks frame) RIGHT_WRIST of
        None \<Rightarrow> False
      | Some rWrist \<Rightarrow>
          (let angleVec1 = (fsub ops (flit ops (x rWrist)) (flit ops (x rElbow)),
                            fsub ops (flit ops (y rWrist)) (flit ops (y rElbow)));
               angleVec2 = (fsub ops (flit ops (x rShoulder)) (flit ops (x rElbow)),
                            fsub ops (flit ops (y rShoulder)) (flit ops (y rElbow)));
               dotProduct = fadd ops (fmul ops (fst angleVec1) (fst angleVec2))
                                     (fmul ops (snd angleVec1) (snd angleVec2));
               mag1 = fsqrt ops (fadd ops (fpow ops (fst angleVec1) (flit ops 2))
                                          (fpow ops (snd angleVec1) (flit ops 2)));
               mag2 = fsqrt ops (fadd ops (fpow ops (fst angleVec2) (flit ops 2))
                                          (fpow ops (snd angleVec2) (flit ops 2)))
           in if feq ops mag1 (flit ops 0) \<or> feq ops mag2 (flit ops 0) then False
              else
                (let angleRad = facos ops (fdiv ops dotProduct (fmul ops mag1 mag2));
                     angleDeg = fdiv ops (fmul ops angleRad (flit ops 180)) (flit ops pi)
                 in fgt ops angleDeg (flit ops 80) \<and> flt ops angleDeg (flit ops 130) \<and>
                    y rWrist < y rElbow)))))"

function trophyLoop :: "'n FloatOps \<Rightarrow> heap \<Rightarrow> ref list \<Rightarrow> nat \<Rightarrow> ref option" where
  "trophyLoop ops h poseData i =
     (if i < length poseData
      then (if trophyTest ops (h (poseData ! i)) then Some (poseData ! i)
            else trophyLoop ops h poseData (i + 1))
      else None)"
  by pat_completeness auto
termination
  by (relation "measure (\<lambda>(ops, h, poseData, i). length poseData - i)") auto

function contactLoop :: "heap \<Rightarrow> ref list \<Rightarrow> nat \<Rightarrow> ref option \<Rightarrow> error + ref option" where
  "contactLoop h poseData i contactPointFrame =
     (if i < length poseData
      then
        (case elemAt (landmarks (h (poseData ! i))) RIGHT_WRIST of
           None \<Rightarrow> contactLoop h poseData (i + 1) contactPointFrame
         | Some rightWrist \<Rightarrow>
             (case yOrInfinity h RIGHT_WRIST contactPointFrame of
                Inl e \<Rightarrow> Inl e
              | Inr bound \<Rightarrow>
                  if ltOrInfinity (y rightWrist) bound
                  then contactLoop h poseData (i + 1) (Some (poseData ! i))
                  else contactLoop h poseData (i + 1) contactPointFrame))
      else Inr contactPointFrame)"
  by pat_completeness auto
termination
  by (relation "measure (\<lambda>(h, poseData, i, c). length poseData - i)") auto

text \<open>\<open>f ? f.time : null\<close> and \<open>f ? poseData.indexOf(f) : -1\<close>.\<close>

definition frameTime :: "heap \<Rightarrow> ref option \<Rightarrow> real option" where
  "frameTime h f = (case f of None \<Rightarrow> None | Some r \<Rightarrow> Some (time (h r)))"

definition frameIndex :: "ref list \<Rightarrow> ref option \<Rightarrow> int" where
  "frameIndex poseData f = (case f of None \<Rightarrow> -1 | Some r \<Rightarrow> indexOf poseData r)"

text \<open>The local variables of \<open>analyzeKinematics\<close> after its three passes.\<close>

record Locals =
  tossPeakFrame :: "ref option"
  tossPeakIndex :: int
  trophyPoseFrame :: "ref option"
  trophyPoseIndex :: int
  contactPointFrame :: "ref option"

definition passes :: "'n FloatOps \<Rightarrow> heap \<Rightarrow> ref list \<Rightarrow> error + Locals" where
  "passes ops h poseData =
     (case tossLoop h poseData None of
        Inl e \<Rightarrow> Inl e
      | Inr tossF \<Rightarrow>
          (let tossI = frameIndex poseData tossF;
               trophyF = (if tossI \<noteq> -1 then trophyLoop ops h poseData (nat tossI) else None);
               trophyI = frameIndex poseData trophyF
           in case (if trophyI \<noteq> -1 then contactLoop h poseData (nat trophyI) None
                    else Inr None) of
                Inl e \<Rightarrow> Inl e
              | Inr contactF \<Rightarrow>
                  Inr \<lparr>tossPeakFrame = tossF, tossPeakIndex = tossI,
                       trophyPoseFrame = trophyF, trophyPoseIndex = trophyI,
                       contactPointFrame = contactF\<rparr>))"

definition analyzeKinematics ::
  "'n FloatOps \<Rightarrow> heap \<Rightarrow> ref list \<Rightarrow> real \<Rightarrow> error + KeyMoments" where
  "analyzeKinematics ops h poseData duration =
     (if length poseData < 10
      then Inr \<lparr>Serve_Start = Some (if length poseData > 0 then time (h (poseData ! 0)) else 0),
                Toss_Peak = None, Trophy_Pose = None, Contact_Point = None\<rparr>
      else
        (case passes ops h poseData of
           Inl e \<Rightarrow> Inl e
         | Inr l \<Rightarrow>
             Inr \<lparr>Serve_Start = Some (time (h (poseData ! 0))),
                  Toss_Peak = frameTime h (tossPeakFrame l),
                  Trophy_Pose = frameTime h (trophyPoseFrame l),
                  Contact_Point = frameTime h (contactPointFrame l)\<rparr>))"

section \<open>Gesture signal detector (detectSignalInStream)\<close>

datatype SignalState = idle | detecting | locked

definition WRIST_L :: nat where "WRIST_L = 15"
definition WRIST_R :: nat where "WRIST_R = 16"
definition SHOULDER_L :: nat where "SHOULDER_L = 11"
definition SHOULDER_R :: nat where "SHOULDER_R = 12"
definition STILLNESS_THRESHOLD :: real where "STILLNESS_THRESHOLD = 2 / 100"
definition STILL_FRAMES_REQUIRED :: nat where "STILL_FRAMES_REQUIRED = 120"

text \<open>
  The closure variables of one call of \<open>detectSignalInStream\<close>. \<open>callbacks\<close> is the
  sequence of \<open>onStateChange\<close> invocations so far, oldest first; \<open>scheduled\<close> says that
  \<open>detectLoop\<close> is requested for the next animation frame (the first run is the direct
  call at the end of \<open>detectSignalInStream\<close>).
\<close>

record Detector =
  lastWristPos :: "(real \<times> real) option"
  stillFrameCount :: nat
  lastReportedState :: SignalState
  callbacks :: "SignalState list"
  scheduled :: bool

definition initialDetector :: Detector where
  "initialDetector =
     \<lparr>lastWristPos = None, stillFrameCount = 0, lastReportedState = idle,
      callbacks = [], scheduled = True\<rparr>"

definition reportState :: "SignalState \<Rightarrow> Detector \<Rightarrow> Detector" where
  "reportState newState s =
     (if newState \<noteq> lastReportedState s
      then s\<lparr>lastReportedState := newState, callbacks := callbacks s @ [newState]\<rparr>
      else s)"

text \<open>\<open>results.landmarks\<close> of one detection: the poses found (none: the empty list).\<close>

type_synonym PoseResult = "NormalizedLandmark list list"

text \<open>\<open>w && s && w.y < s.y\<close>\<close>

definition wristAbove :: "NormalizedLandmark option \<Rightarrow> NormalizedLandmark option \<Rightarrow> bool" where
  "wristAbove w s =
     (case w of None \<Rightarrow> False
      | Some wl \<Rightarrow> (case s of None \<Rightarrow> False | Some sl \<Rightarrow> y wl < y sl))"

text \<open>The first part of \<open>detectLoop\<close>: the pair \<open>(handRaised, raisedWrist)\<close>.\<close>

definition findRaisedWrist :: "PoseResult \<Rightarrow> bool \<times> NormalizedLandmark option" where
  "findRaisedWrist results =
     (if length results > 0
      then
        (let lms = results ! 0;
             wristL = elemAt lms WRIST_L;
             shoulderL = elemAt lms SHOULDER_L;
             wristR = elemAt lms WRIST_R;
             shoulderR = elemAt lms SHOULDER_R
         in if wristAbove wristL shoulderL then (True, wristL)
            else if wristAbove wristR shoulderR then (True, wristR)
            else (False, None))
      else (False, None))"

definition detectLoop :: "'n FloatOps \<Rightarrow> PoseResult \<Rightarrow> Detector \<Rightarrow> Detector" where
  "detectLoop ops results s0 =
     (let s1 =
        (case findRaisedWrist results of
           (True, Some raisedWrist) \<Rightarrow>
             (let s = reportState detecting s0 in
              case lastWristPos s of
                Some (px, py) \<Rightarrow>
                  (let distance =
                         fsqrt ops
                           (fadd ops
                              (fpow ops (fsub ops (flit ops (x raisedWrist)) (flit ops px))
                                 (flit ops 2))
                              (fpow ops (fsub ops (flit ops (y raisedWrist)) (flit ops py))
                                 (flit ops 2)))
                   in if flt ops distance (flit ops STILLNESS_THRESHOLD)
                      then s\<lparr>stillFrameCount := stillFrameCount s + 1\<rparr>
                      else s\<lparr>stillFrameCount := 1,
                             lastWristPos := Some (x raisedWrist, y raisedWrist)\<rparr>)
              | None \<Rightarrow>
                  s\<lparr>stillFrameCount := 1,
                    lastWristPos := Some (x raisedWrist, y raisedWrist)\<rparr>)
         | _ \<Rightarrow> (reportState idle s0)\<lparr>stillFrameCount := 0, lastWristPos := None\<rparr>)
      in if stillFrameCount s1 \<ge> STILL_FRAMES_REQUIRED
         then (reportState locked s1)\<lparr>scheduled := False\<rparr>
         else s1\<lparr>scheduled := True\<rparr>)"

text \<open>
  The animation frames of one activation, one detection result per frame: \<open>detectLoop\<close>
  runs on a frame only if the previous run requested it.
\<close>

fun runDetector :: "'n FloatOps \<Rightarrow> Detector \<Rightarrow> PoseResult list \<Rightarrow> Detector" where
  "runDetector ops s [] = s"
| "runDetector ops s (r # rs) =
     (if scheduled s then runDetector ops (detectLoop ops r s) rs else s)"

text \<open>What a tick evaluates to before the stillness test: the raised wrist position, if any.\<close>

definition raisedAt :: "PoseResult \<Rightarrow> (real \<times> real) option" where
  "raisedAt results =
     (case findRaisedWrist results of
        (True, Some w) \<Rightarrow> Some (x w, y w)
      | _ \<Rightarrow> None)"

text \<open>
  The distance in the plane between the positions \<open>a\<close> and \<open>b\<close> as \<open>detectLoop\<close> computes
  it, and its stillness test: the computed distance is below the threshold.
\<close>

definition wristDistance :: "'n FloatOps \<Rightarrow> real \<times> real \<Rightarrow> real \<times> real \<Rightarrow> 'n" where
  "wristDistance ops a b =
     fsqrt ops
       (fadd ops (fpow ops (fsub ops (flit ops (fst a)) (flit ops (fst b))) (flit ops 2))
                 (fpow ops (fsub ops (flit ops (snd a)) (flit ops (snd b))) (flit ops 2)))"

definition withinThreshold :: "'n FloatOps \<Rightarrow> real \<times> real \<Rightarrow> real \<times> real \<Rightarrow> bool" where
  "withinThreshold ops a b = flt ops (wristDistance ops a b) (flit ops STILLNESS_THRESHOLD)"

section \<open>Frame collection loop (processVideoForPose)\<close>

text \<open>What one run of \<open>processFrame\<close> reads from the video and the pose source.\<close>

record VideoTick =
  paused :: bool
  ended :: bool
  currentTime :: real
  detection :: PoseResult

text \<open>
  \<open>progressLog\<close> is the sequence of \<open>setProgress\<close> arguments, oldest first; \<open>None\<close> is
  a value that is not a finite number. \<open>resolved\<close> says that the promise is resolved with
  \<open>poseData\<close> and no further frame is requested.
\<close>

record Collector =
  poseData :: "LandmarkFrame list"
  lastTime :: real
  progressLog :: "real option list"
  resolved :: bool

definition initialCollector :: Collector where
  "initialCollector = \<lparr>poseData = [], lastTime = -1, progressLog = [], resolved = False\<rparr>"

definition jsDiv :: "real \<Rightarrow> real \<Rightarrow> real option" where
  "jsDiv a b = (if b = 0 then None else Some (a / b))"

definition processFrame :: "real \<Rightarrow> VideoTick \<Rightarrow> Collector \<Rightarrow> Collector" where
  "processFrame duration v s =
     (if paused v \<or> ended v
      then s\<lparr>progressLog := progressLog s @ [Some 100], resolved := True\<rparr>
      else if currentTime v > lastTime s
      then
        (let s1 = s\<lparr>lastTime := currentTime v\<rparr>;
             s2 = (if length (detection v) > 0
                   then s1\<lparr>poseData := poseData s1 @
                             [\<lparr>time = currentTime v, landmarks = detection v ! 0\<rparr>]\<rparr>
                   else s1);
             progress = map_option (\<lambda>q. q * 100) (jsDiv (currentTime v) duration)
         in s2\<lparr>progressLog := progressLog s2 @ [progress]\<rparr>)
      else s)"

fun runCollector :: "real \<Rightarrow> Collector \<Rightarrow> VideoTick list \<Rightarrow> Collector" where
  "runCollector duration s [] = s"
| "runCollector duration s (v # vs) =
     (if resolved s then s else runCollector duration (processFrame duration v s) vs)"

definition inPercentRange :: "real option \<Rightarrow> bool" where
  "inPercentRange q = (case q of None \<Rightarrow> False | Some v \<Rightarrow> 0 \<le> v \<and> v \<le> 100)"

section \<open>Properties of the extractor, as the specification words them\<close>

text \<open>The vertical coordinate of the wrist with joint index \<open>j\<close> in buffer position \<open>i\<close>.\<close>

definition wristY :: "heap \<Rightarrow> ref list \<Rightarrow> nat \<Rightarrow> nat \<Rightarrow> real option" where
  "wristY h p j i = map_option y (elemAt (landmarks (h (p ! i))) j)"

text \<open>
  Position \<open>i\<close> of the range \<open>t..<n\<close> holds the smallest wrist coordinate of the range;
  among the positions that do, it is the first (\<open>firstMinFrom\<close>) or the last
  (\<open>lastMinFrom\<close>).
\<close>

definition firstMinFrom :: "heap \<Rightarrow> ref list \<Rightarrow> nat \<Rightarrow> nat \<Rightarrow> nat \<Rightarrow> nat \<Rightarrow> bool" where
  "firstMinFrom h p j t n i =
     (t \<le> i \<and> i < n \<and>
      (case wristY h p j i of
         None \<Rightarrow> False
       | Some v \<Rightarrow>
           (\<forall>k \<in> {t..<i}. case wristY h p j k of None \<Rightarrow> True | Some u \<Rightarrow> v < u) \<and>
           (\<forall>k \<in> {i..<n}. case wristY h p j k of None \<Rightarrow> True | Some u \<Rightarrow> v \<le> u)))"

definition lastMinFrom :: "heap \<Rightarrow> ref list \<Rightarrow> nat \<Rightarrow> nat \<Rightarrow> nat \<Rightarrow> nat \<Rightarrow> bool" where
  "lastMinFrom h p j t n i =
     (t \<le> i \<and> i < n \<and>
      (case wristY h p j i of
         None \<Rightarrow> False
       | Some v \<Rightarrow>
           (\<forall>k \<in> {t..<i}. case wristY h p j k of None \<Rightarrow> True | Some u \<Rightarrow> v \<le> u) \<and>
           (\<forall>k \<in> {Suc i..<n}. case wristY h p j k of None \<Rightarrow> True | Some u \<Rightarrow> v < u)))"





text \<open>
  A pose buffer as the frame collection loop builds it: a frame is appended only when the
  current time exceeds the time of the last processed frame, so the times increase
  strictly along the buffer.
\<close>

definition increasingTimes :: "heap \<Rightarrow> ref list \<Rightarrow> bool" where
  "increasingTimes h p = sorted_wrt (<) (map (\<lambda>r. time (h r)) p)"

section \<open>Loop invariants used in the proofs\<close>

text \<open>The running frame, if any, has the joint \<open>j\<close>.\<close>

definition hasJoint :: "heap \<Rightarrow> nat \<Rightarrow> ref option \<Rightarrow> bool" where
  "hasJoint h j cur = (case cur of None \<Rightarrow> True | Some f \<Rightarrow> elemAt (landmarks (h f)) j \<noteq> None)"

text \<open>
  The Contact Point loop at position \<open>i\<close>, started at \<open>t\<close>: the running frame is the
  first minimum of the positions seen, or nothing if none of them has a right wrist.
\<close>

definition contactInv :: "heap \<Rightarrow> ref list \<Rightarrow> nat \<Rightarrow> nat \<Rightarrow> ref option \<Rightarrow> bool" where
  "contactInv h p t i cur =
     (case cur of
        None \<Rightarrow> (\<forall>k \<in> {t..<i}. wristY h p RIGHT_WRIST k = None)
      | Some r \<Rightarrow> (\<exists>m. r = p ! m \<and> firstMinFrom h p RIGHT_WRIST t i m))"

text \<open>
  The detector of one activation: while the loop is requested, \<open>locked\<close> has not been
  reported and the stillness counter is below the required count; once it is not,
  \<open>locked\<close> has been reported exactly once and is the last reported state.
\<close>

definition detectorInv :: "Detector \<Rightarrow> bool" where
  "detectorInv s =
     (if scheduled s
      then locked \<notin> set (callbacks s) \<and> lastReportedState s \<noteq> locked \<and>
           stillFrameCount s < STILL_FRAMES_REQUIRED
      else count_list (callbacks s) locked = 1 \<and> lastReportedState s = locked \<and>
           callbacks s \<noteq> [] \<and> last (callbacks s) = locked \<and>
           STILL_FRAMES_REQUIRED \<le> stillFrameCount s)"

text \<open>
  The frames collected so far have strictly increasing times, none after \<open>lastTime\<close>.
\<close>

definition timesInv :: "Collector \<Rightarrow> bool" where
  "timesInv s =
     (sorted_wrt (<) (map time (poseData s)) \<and> (\<forall>f \<in> set (poseData s). time f \<le> lastTime s))"

text \<open>A resolved collector has emitted progress, the last value being 100.\<close>

definition doneInv :: "Collector \<Rightarrow> bool" where
  "doneInv s = (resolved s \<longrightarrow> progressLog s \<noteq> [] \<and> last (progressLog s) = Some 100)"

section \<open>Example inputs\<close>

text \<open>
  An arithmetic for the examples: the operations without rounding, on \<open>real option\<close>
  with \<open>None\<close> for a result that is not a number (of the powers only the square, the
  one the source takes). The examples use coordinates on which double-precision
  arithmetic takes the same branches.
\<close>

definition lift2 :: "(real \<Rightarrow> real \<Rightarrow> 'a) \<Rightarrow> 'a \<Rightarrow> real option \<Rightarrow> real option \<Rightarrow> 'a" where
  "lift2 f d a b =
     (case a of None \<Rightarrow> d | Some u \<Rightarrow> (case b of None \<Rightarrow> d | Some v \<Rightarrow> f u v))"

definition exactOps :: "real option FloatOps" where
  "exactOps =
     \<lparr>flit = Some,
      fsub = lift2 (\<lambda>u v. Some (u - v)) None,
      fadd = lift2 (\<lambda>u v. Some (u + v)) None,
      fmul = lift2 (\<lambda>u v. Some (u * v)) None,
      fdiv = lift2 (\<lambda>u v. if v = 0 then None else Some (u / v)) None,
      fpow = lift2 (\<lambda>u v. if v = 2 then Some (u * u) else None) None,
      fsqrt = (\<lambda>a. case a of None \<Rightarrow> None
                        | Some u \<Rightarrow> if 0 \<le> u then Some (sqrt u) else None),
      facos = (\<lambda>a. case a of None \<Rightarrow> None
                        | Some u \<Rightarrow> if -1 \<le> u \<and> u \<le> 1 then Some (arccos u) else None),
      flt = lift2 (\<lambda>u v. u < v) False,
      fgt = lift2 (\<lambda>u v. u > v) False,
      feq = lift2 (\<lambda>u v. u = v) False\<rparr>"

definition pt :: "real \<Rightarrow> real \<Rightarrow> NormalizedLandmark" where
  "pt a b = \<lparr>x = a, y = b, z = 0\<rparr>"

text \<open>
  A frame of 33 landmarks at time \<open>t\<close>: left wrist at height \<open>lwy\<close>, right wrist at
  \<open>(1/2, rwy)\<close>, right elbow at \<open>(1/2, 9/10)\<close>; the right shoulder is at \<open>(3/5, 9/10)\<close>
  (a right angle at the elbow) when \<open>q\<close> holds and on the elbow otherwise.
\<close>

definition exFrame :: "real \<Rightarrow> real \<Rightarrow> real \<Rightarrow> bool \<Rightarrow> LandmarkFrame" where
  "exFrame t lwy rwy q =
     \<lparr>time = t,
      landmarks = replicate 11 (pt 0 0) @
        [pt (2/5) (1/2), (if q then pt (3/5) (9/10) else pt (1/2) (9/10)),
         pt (2/5) (7/10), pt (1/2) (9/10), pt (3/10) lwy, pt (1/2) rwy] @
        replicate 16 (pt 0 0)\<rparr>"

definition heapOf :: "LandmarkFrame list \<Rightarrow> heap" where
  "heapOf fs r = (if r < length fs then fs ! r else \<lparr>time = 0, landmarks = []\<rparr>)"

text \<open>
  Ten distinct frame objects at times 0 to 9: the left wrist is highest in frame 2, frame
  4 alone meets the Trophy Pose condition, and from frame 4 on the right wrist is highest
  in frames 5 and 7, at equal height.
\<close>

definition exHeapA :: heap where
  "exHeapA = heapOf
     [exFrame 0 (1/2) (4/5) False, exFrame 1 (2/5) (4/5) False, exFrame 2 (3/10) (4/5) False,
      exFrame 3 (3/5) (4/5) False, exFrame 4 (3/5) (7/10) True, exFrame 5 (3/5) (1/5) False,
      exFrame 6 (3/5) (1/2) False, exFrame 7 (3/5) (1/5) False, exFrame 8 (3/5) (3/5) False,
      exFrame 9 (3/5) (3/5) False]"

definition exBufA :: "ref list" where
  "exBufA = [0, 1, 2, 3, 4, 5, 6, 7, 8, 9]"

text \<open>A short buffer of three distinct frames.\<close>

definition exBufShort :: "ref list" where
  "exBufShort = [3, 4, 5]"

text \<open>
  A detection with the left wrist raised at \<open>(a, b)\<close> (the left shoulder lies below it),
  and the result of a frame without a body.
\<close>

definition exTick :: "real \<Rightarrow> real \<Rightarrow> PoseResult" where
  "exTick a b =
     [replicate 11 (pt 0 0) @
      [pt a (b + 1/5), pt 0 0, pt 0 0, pt 0 0, pt a b, pt 0 0] @ replicate 16 (pt 0 0)]"

definition noPose :: PoseResult where
  "noPose = []"

definition exVideoTick :: "bool \<Rightarrow> real \<Rightarrow> PoseResult \<Rightarrow> VideoTick" where
  "exVideoTick e t r = \<lparr>paused = False, ended = e, currentTime = t, detection = r\<rparr>"

section \<open>Lemmas: arrays and the Toss Peak loop\<close>

lemma elemAt_Some: "elemAt xs i = Some a \<longleftrightarrow> i < length xs \<and> xs ! i = a"
  by (auto simp: elemAt_def)

lemma elemAt_None: "elemAt xs i = None \<longleftrightarrow> length xs \<le> i"
  by (auto simp: elemAt_def)

lemma indexOf_ge: "-1 \<le> indexOf p a"
  by (induction p) (auto simp: Let_def)

lemma indexOf_absent: "indexOf p a = -1 \<longleftrightarrow> a \<notin> set p"
proof (induction p)
  case Nil
  show ?case by simp
next
  case (Cons b bs)
  have "-1 \<le> indexOf bs a" by (rule indexOf_ge)
  with Cons show ?case by (auto simp: Let_def)
qed

lemma indexOf_nth:
  "a \<in> set p \<Longrightarrow> 0 \<le> indexOf p a \<and> nat (indexOf p a) < length p \<and> p ! nat (indexOf p a) = a"
proof (induction p)
  case Nil
  then show ?case by simp
next
  case (Cons b bs)
  show ?case
  proof (cases "b = a")
    case True
    then show ?thesis by simp
  next
    case False
    with Cons.prems have mem: "a \<in> set bs" by simp
    from Cons.IH [OF mem] have ih: "0 \<le> indexOf bs a" "nat (indexOf bs a) < length bs"
      "bs ! nat (indexOf bs a) = a" by simp_all
    from ih(1) have ne: "indexOf bs a \<noteq> -1" by simp
    from ih(1) have "nat (indexOf bs a + 1) = Suc (nat (indexOf bs a))" by simp
    with False ne ih show ?thesis by (simp add: Let_def)
  qed
qed

lemma indexOf_distinct:
  "distinct p \<Longrightarrow> i < length p \<Longrightarrow> indexOf p (p ! i) = int i"
proof (induction p arbitrary: i)
  case Nil
  then show ?case by simp
next
  case (Cons b bs)
  show ?case
  proof (cases i)
    case 0
    then show ?thesis by simp
  next
    case (Suc k)
    with Cons.prems have k: "k < length bs" and d: "distinct bs" and nb: "b \<notin> set bs" by simp_all
    from k nb have neq: "b \<noteq> bs ! k" by (metis nth_mem)
    from Cons.IH [OF d k] have ih: "indexOf bs (bs ! k) = int k" .
    from Suc neq ih show ?thesis by (simp add: Let_def)
  qed
qed


lemma yOrInfinity_ok:
  "hasJoint h j cur \<Longrightarrow> \<exists>b. yOrInfinity h j cur = Inr b"
  by (auto simp: hasJoint_def yOrInfinity_def split: option.splits)

lemma tossLoop_ok:
  "hasJoint h LEFT_WRIST cur \<Longrightarrow>
   \<exists>r. tossLoop h xs cur = Inr r \<and> hasJoint h LEFT_WRIST r \<and>
       (r = cur \<or> (\<exists>f \<in> set xs. r = Some f))"
proof (induction xs arbitrary: cur)
  case Nil
  then show ?case by simp
next
  case (Cons f fs)
  show ?case
  proof (cases "elemAt (landmarks (h f)) LEFT_WRIST")
    case None
    with Cons.IH [OF Cons.prems] show ?thesis by auto
  next
    case (Some w)
    from yOrInfinity_ok [OF Cons.prems] obtain b where b: "yOrInfinity h LEFT_WRIST cur = Inr b" ..
    show ?thesis
    proof (cases "ltOrInfinity (y w) b")
      case True
      have "hasJoint h LEFT_WRIST (Some f)" using Some by (simp add: hasJoint_def)
      from Cons.IH [OF this] Some b True show ?thesis by auto
    next
      case False
      with Cons.IH [OF Cons.prems] Some b show ?thesis by auto
    qed
  qed
qed

section \<open>Lemmas: the Trophy Pose loop\<close>


declare trophyLoop.simps [simp del]
declare contactLoop.simps [simp del]


lemma trophyLoop_Some:
  "trophyLoop ops h p t = Some r \<Longrightarrow>
   \<exists>i. t \<le> i \<and> i < length p \<and> r = p ! i \<and> trophyTest ops (h (p ! i)) \<and>
       (\<forall>k. t \<le> k \<and> k < i \<longrightarrow> \<not> trophyTest ops (h (p ! k)))"
proof (induction ops h p t rule: trophyLoop.induct)
  case (1 ops h p i)
  show ?case
  proof (cases "i < length p")
    case False
    with "1.prems" show ?thesis by (simp add: trophyLoop.simps [of ops h p i])
  next
    case True
    show ?thesis
    proof (cases "trophyTest ops (h (p ! i))")
      case True
      with \<open>i < length p\<close> "1.prems" have "r = p ! i"
        by (simp add: trophyLoop.simps [of ops h p i])
      with True \<open>i < length p\<close> show ?thesis by auto
    next
      case False
      with True "1.prems" have "trophyLoop ops h p (i + 1) = Some r"
        by (simp add: trophyLoop.simps [of ops h p i])
      from "1.IH" [OF True False this] obtain m where m: "i + 1 \<le> m" "m < length p" "r = p ! m"
        "trophyTest ops (h (p ! m))"
        "\<forall>k. i + 1 \<le> k \<and> k < m \<longrightarrow> \<not> trophyTest ops (h (p ! k))" by blast
      have "\<forall>k. i \<le> k \<and> k < m \<longrightarrow> \<not> trophyTest ops (h (p ! k))"
      proof (intro allI impI)
        fix k assume k: "i \<le> k \<and> k < m"
        show "\<not> trophyTest ops (h (p ! k))"
        proof (cases "k = i")
          case True with False show ?thesis by simp
        next
          case False
          with k have "i + 1 \<le> k \<and> k < m" by simp
          with m(5) show ?thesis by blast
        qed
      qed
      with m show ?thesis by (intro exI [of _ m]) simp
    qed
  qed
qed

section \<open>Lemmas: the Contact Point loop\<close>


lemma firstMinFrom_alt:
  "firstMinFrom h p j t n i \<longleftrightarrow>
     t \<le> i \<and> i < n \<and>
     (\<exists>v. wristY h p j i = Some v \<and>
          (\<forall>k u. t \<le> k \<and> k < i \<and> wristY h p j k = Some u \<longrightarrow> v < u) \<and>
          (\<forall>k u. i \<le> k \<and> k < n \<and> wristY h p j k = Some u \<longrightarrow> v \<le> u))"
  unfolding firstMinFrom_def
  by (auto split: option.splits)

lemma firstMinFrom_extend_none:
  assumes "firstMinFrom h p j t i m" and "wristY h p j i = None"
  shows "firstMinFrom h p j t (Suc i) m"
  using assms unfolding firstMinFrom_alt
  by (auto simp: less_Suc_eq)

lemma firstMinFrom_extend_keep:
  assumes "firstMinFrom h p j t i m" and "wristY h p j m = Some v" and "wristY h p j i = Some u"
    and "\<not> u < v"
  shows "firstMinFrom h p j t (Suc i) m"
  using assms unfolding firstMinFrom_alt
  by (auto simp: less_Suc_eq)

lemma firstMinFrom_extend_new:
  assumes "firstMinFrom h p j t i m" and "wristY h p j m = Some v" and "wristY h p j i = Some u"
    and "u < v"
  shows "firstMinFrom h p j t (Suc i) i"
proof -
  from assms(1) have m: "t \<le> m" "m < i" by (simp_all add: firstMinFrom_alt)
  have before: "\<forall>k w. t \<le> k \<and> k < i \<and> wristY h p j k = Some w \<longrightarrow> u < w"
  proof (intro allI impI)
    fix k w assume k: "t \<le> k \<and> k < i \<and> wristY h p j k = Some w"
    have "v \<le> w"
    proof (cases "k < m")
      case True
      with assms(1,2) k have "v < w" unfolding firstMinFrom_alt by auto
      then show ?thesis by simp
    next
      case False
      then have "m \<le> k" by simp
      with assms(1,2) k show ?thesis unfolding firstMinFrom_alt by auto
    qed
    with assms(4) show "u < w" by simp
  qed
  from m have "t \<le> i" by simp
  with before assms(3) show ?thesis unfolding firstMinFrom_alt
    by (auto simp: less_Suc_eq)
qed

lemma firstMinFrom_start:
  assumes "t \<le> i" and "wristY h p j i = Some u" and "\<forall>k \<in> {t..<i}. wristY h p j k = None"
  shows "firstMinFrom h p j t (Suc i) i"
  using assms unfolding firstMinFrom_alt
  by (auto simp: less_Suc_eq)

lemma contactLoop_inv:
  "t \<le> i \<Longrightarrow> contactInv h p t i cur \<Longrightarrow>
   \<exists>r. contactLoop h p i cur = Inr r \<and> contactInv h p t (max i (length p)) r"
proof (induction h p i cur rule: contactLoop.induct)
  case (1 h p i cur)
  show ?case
  proof (cases "i < length p")
    case False
    then have "max i (length p) = i" by simp
    with False "1.prems" show ?thesis by (simp add: contactLoop.simps [of h p i cur])
  next
    case True
    then have mx: "max (i + 1) (length p) = max i (length p)" by simp
    have le: "t \<le> i + 1" using "1.prems"(1) by simp
    show ?thesis
    proof (cases "elemAt (landmarks (h (p ! i))) RIGHT_WRIST")
      case None
      then have wy: "wristY h p RIGHT_WRIST i = None" by (simp add: wristY_def)
      have "contactInv h p t (i + 1) cur"
      proof (cases cur)
        case None
        with "1.prems" wy show ?thesis by (auto simp: contactInv_def less_Suc_eq)
      next
        case (Some r)
        with "1.prems" wy show ?thesis
          by (auto simp: contactInv_def dest: firstMinFrom_extend_none)
      qed
      from "1.IH"(1) [OF True None le this] None True mx show ?thesis
        by (simp add: contactLoop.simps [of h p i cur])
    next
      case (Some w)
      then have wy: "wristY h p RIGHT_WRIST i = Some (y w)" by (simp add: wristY_def)
      show ?thesis
      proof (cases cur)
        case None
        then have yi: "yOrInfinity h RIGHT_WRIST cur = Inr None" by (simp add: yOrInfinity_def)
        have lt: "ltOrInfinity (y w) None" by (simp add: ltOrInfinity_def)
        from None "1.prems" have "\<forall>k \<in> {t..<i}. wristY h p RIGHT_WRIST k = None"
          by (simp add: contactInv_def)
        from firstMinFrom_start [OF "1.prems"(1) wy this]
        have "contactInv h p t (i + 1) (Some (p ! i))" by (auto simp: contactInv_def)
        from "1.IH"(2) [OF True Some yi lt le this] Some True mx yi lt show ?thesis
          by (simp add: contactLoop.simps [of h p i cur])
      next
        case (Some r)
        with "1.prems" obtain m where m: "r = p ! m" "firstMinFrom h p RIGHT_WRIST t i m"
          by (auto simp: contactInv_def)
        from m(2) obtain v where v: "wristY h p RIGHT_WRIST m = Some v"
          by (auto simp: firstMinFrom_alt)
        with m(1) Some have yi: "yOrInfinity h RIGHT_WRIST cur = Inr (Some v)"
          by (auto simp: yOrInfinity_def wristY_def split: option.splits)
        show ?thesis
        proof (cases "y w < v")
          case True
          then have lt: "ltOrInfinity (y w) (Some v)" by (simp add: ltOrInfinity_def)
          from firstMinFrom_extend_new [OF m(2) v wy True]
          have "contactInv h p t (i + 1) (Some (p ! i))" by (auto simp: contactInv_def)
          from "1.IH"(2) [OF \<open>i < length p\<close> \<open>elemAt (landmarks (h (p ! i))) RIGHT_WRIST = Some w\<close> yi lt le this]
            \<open>elemAt (landmarks (h (p ! i))) RIGHT_WRIST = Some w\<close> \<open>i < length p\<close> mx yi lt
          show ?thesis by (simp add: contactLoop.simps [of h p i cur])
        next
          case False
          then have lt: "\<not> ltOrInfinity (y w) (Some v)" by (simp add: ltOrInfinity_def)
          from firstMinFrom_extend_keep [OF m(2) v wy False] m(1) Some
          have "contactInv h p t (i + 1) cur" by (auto simp: contactInv_def)
          from "1.IH"(3) [OF \<open>i < length p\<close> \<open>elemAt (landmarks (h (p ! i))) RIGHT_WRIST = Some w\<close> yi lt le this]
            \<open>elemAt (landmarks (h (p ! i))) RIGHT_WRIST = Some w\<close> \<open>i < length p\<close> mx yi lt
          show ?thesis by (simp add: contactLoop.simps [of h p i cur])
        qed
      qed
    qed
  qed
qed

section \<open>Lemmas: evaluating the example inputs\<close>

lemma exFrame_joints:
  "elemAt (landmarks (exFrame t a b q)) LEFT_WRIST = Some (pt (3/10) a)"
  "elemAt (landmarks (exFrame t a b q)) RIGHT_WRIST = Some (pt (1/2) b)"
  "elemAt (landmarks (exFrame t a b q)) RIGHT_ELBOW = Some (pt (1/2) (9/10))"
  "elemAt (landmarks (exFrame t a b q)) RIGHT_SHOULDER =
     Some (if q then pt (3/5) (9/10) else pt (1/2) (9/10))"
  by (simp_all add: exFrame_def elemAt_def LEFT_WRIST_def RIGHT_WRIST_def RIGHT_ELBOW_def
      RIGHT_SHOULDER_def nth_append)

lemma exFrame_time: "time (exFrame t a b q) = t"
  by (simp add: exFrame_def)

lemma pt_sel: "x (pt a b) = a" "y (pt a b) = b"
  by (simp_all add: pt_def)

lemma exactOps_sel:
  "flit exactOps = Some"
  "fsub exactOps = lift2 (\<lambda>u v. Some (u - v)) None"
  "fadd exactOps = lift2 (\<lambda>u v. Some (u + v)) None"
  "fmul exactOps = lift2 (\<lambda>u v. Some (u * v)) None"
  "fdiv exactOps = lift2 (\<lambda>u v. if v = 0 then None else Some (u / v)) None"
  "fpow exactOps = lift2 (\<lambda>u v. if v = 2 then Some (u * u) else None) None"
  "fsqrt exactOps (Some u) = (if 0 \<le> u then Some (sqrt u) else None)"
  "facos exactOps (Some u) = (if -1 \<le> u \<and> u \<le> 1 then Some (arccos u) else None)"
  "flt exactOps = lift2 (\<lambda>u v. u < v) False"
  "fgt exactOps = lift2 (\<lambda>u v. u > v) False"
  "feq exactOps = lift2 (\<lambda>u v. u = v) False"
  by (simp_all add: exactOps_def)

lemma lift2_Some: "lift2 f d (Some u) (Some v) = f u v"
  by (simp add: lift2_def)

lemma exFrame_trophy: "trophyTest exactOps (exFrame t a b q) = (q \<and> b < 9/10)"
  by (simp add: trophyTest_def exFrame_joints pt_sel Let_def exactOps_sel lift2_Some)

lemmas ex_eval = exFrame_joints exFrame_time exFrame_trophy pt_sel heapOf_def
  yOrInfinity_def ltOrInfinity_def frameIndex_def frameTime_def Let_def

lemma exHeapA_vals:
  "exHeapA 0 = exFrame 0 (1/2) (4/5) False" "exHeapA 1 = exFrame 1 (2/5) (4/5) False"
  "exHeapA 2 = exFrame 2 (3/10) (4/5) False" "exHeapA 3 = exFrame 3 (3/5) (4/5) False"
  "exHeapA 4 = exFrame 4 (3/5) (7/10) True" "exHeapA 5 = exFrame 5 (3/5) (1/5) False"
  "exHeapA 6 = exFrame 6 (3/5) (1/2) False" "exHeapA 7 = exFrame 7 (3/5) (1/5) False"
  "exHeapA 8 = exFrame 8 (3/5) (3/5) False" "exHeapA 9 = exFrame 9 (3/5) (3/5) False"
  "exHeapA (Suc 0) = exFrame 1 (2/5) (4/5) False"
  by (simp_all add: exHeapA_def heapOf_def)

lemma exA_toss: "tossLoop exHeapA exBufA None = Inr (Some 2)"
  by (simp add: exBufA_def exHeapA_vals ex_eval)

lemma exA_trophy: "trophyLoop exactOps exHeapA exBufA 2 = Some 4"
  by (simp add: exBufA_def exHeapA_vals ex_eval trophyLoop.simps)

lemma exA_contact: "contactLoop exHeapA exBufA 4 None = Inr (Some 5)"
  by (simp add: exBufA_def exHeapA_vals ex_eval contactLoop.simps)

lemma exA_passes:
  "passes exactOps exHeapA exBufA = Inr \<lparr>tossPeakFrame = Some 2, tossPeakIndex = 2,
     trophyPoseFrame = Some 4, trophyPoseIndex = 4, contactPointFrame = Some 5\<rparr>"
proof -
  have i2: "indexOf exBufA 2 = 2" and i4: "indexOf exBufA 4 = 4"
    by (simp_all add: exBufA_def)
  show ?thesis
    by (simp add: passes_def exA_toss frameIndex_def i2 i4 exA_trophy exA_contact)
qed

lemma exA_analyze:
  "analyzeKinematics exactOps exHeapA exBufA d = Inr \<lparr>Serve_Start = Some 0, Toss_Peak = Some 2,
     Trophy_Pose = Some 4, Contact_Point = Some 5\<rparr>"
proof -
  have len: "length exBufA = 10" and b0: "exBufA ! 0 = 0" by (simp_all add: exBufA_def)
  show ?thesis
    by (simp add: analyzeKinematics_def len b0 exA_passes frameTime_def exHeapA_vals exFrame_time)
qed

lemma exA_wristY:
  "wristY exHeapA exBufA RIGHT_WRIST 4 = Some (7/10)"
  "wristY exHeapA exBufA RIGHT_WRIST 5 = Some (1/5)"
  "wristY exHeapA exBufA RIGHT_WRIST 6 = Some (1/2)"
  "wristY exHeapA exBufA RIGHT_WRIST 7 = Some (1/5)"
  "wristY exHeapA exBufA RIGHT_WRIST 8 = Some (3/5)"
  "wristY exHeapA exBufA RIGHT_WRIST 9 = Some (3/5)"
  by (simp_all add: wristY_def exBufA_def exHeapA_vals ex_eval)

lemma range_4_10: "{4..<10::nat} = {4, 5, 6, 7, 8, 9}" by auto
lemma range_4_7: "{4..<7::nat} = {4, 5, 6}" by auto
lemma range_8_10: "{8..<10::nat} = {8, 9}" by auto

lemma exA_last: "lastMinFrom exHeapA exBufA RIGHT_WRIST 4 10 7"
  by (simp add: lastMinFrom_def exA_wristY range_4_7 range_8_10)

lemma exA_first: "firstMinFrom exHeapA exBufA RIGHT_WRIST 4 10 5"
  by (simp add: firstMinFrom_def exA_wristY atLeastLessThan_upt upt_rec_numeral)

section \<open>Lemmas: the three passes together\<close>

lemma tossLoop_start:
  "\<exists>r. tossLoop h p None = Inr r \<and> (r = None \<or> (\<exists>f \<in> set p. r = Some f))"
proof -
  have "hasJoint h LEFT_WRIST None" by (simp add: hasJoint_def)
  from tossLoop_ok [OF this, of p] show ?thesis by blast
qed

lemma trophyTest_wrist: "trophyTest ops f \<Longrightarrow> elemAt (landmarks f) RIGHT_WRIST \<noteq> None"
  by (auto simp: trophyTest_def split: option.splits)

lemma contact_from:
  assumes t: "t < length p" and w: "wristY h p RIGHT_WRIST t \<noteq> None"
  shows "\<exists>m. contactLoop h p t None = Inr (Some (p ! m)) \<and>
             firstMinFrom h p RIGHT_WRIST t (length p) m"
proof -
  have inv0: "contactInv h p t t None" by (simp add: contactInv_def)
  from t have mx: "max t (length p) = length p" by simp
  from contactLoop_inv [OF order_refl inv0] mx obtain r
    where r: "contactLoop h p t None = Inr r" "contactInv h p t (length p) r" by auto
  show ?thesis
  proof (cases r)
    case None
    with r(2) t have "wristY h p RIGHT_WRIST t = None" by (simp add: contactInv_def)
    with w show ?thesis by simp
  next
    case (Some f)
    with r show ?thesis by (auto simp: contactInv_def)
  qed
qed

lemma passes_unfold:
  assumes "tossLoop h p None = Inr tossF" and "tossI = frameIndex p tossF"
    and "trophyF = (if tossI \<noteq> -1 then trophyLoop ops h p (nat tossI) else None)"
    and "trophyI = frameIndex p trophyF"
  shows "passes ops h p =
     (case (if trophyI \<noteq> -1 then contactLoop h p (nat trophyI) None else Inr None) of
        Inl e \<Rightarrow> Inl e
      | Inr contactF \<Rightarrow>
          Inr \<lparr>tossPeakFrame = tossF, tossPeakIndex = tossI, trophyPoseFrame = trophyF,
               trophyPoseIndex = trophyI, contactPointFrame = contactF\<rparr>)"
  unfolding passes_def Let_def assms(4) assms(3) assms(2) assms(1) by simp

lemma passes_spec:
  "\<exists>l. passes ops h p = Inr l \<and>
       tossPeakIndex l = frameIndex p (tossPeakFrame l) \<and>
       trophyPoseIndex l = frameIndex p (trophyPoseFrame l) \<and>
       (tossPeakFrame l = None \<or> (\<exists>f \<in> set p. tossPeakFrame l = Some f)) \<and>
       trophyPoseFrame l =
         (if tossPeakIndex l \<noteq> -1 then trophyLoop ops h p (nat (tossPeakIndex l)) else None) \<and>
       (trophyPoseFrame l = None \<longrightarrow> contactPointFrame l = None) \<and>
       (\<forall>r. trophyPoseFrame l = Some r \<longrightarrow>
            r \<in> set p \<and> trophyTest ops (h r) \<and>
            (\<exists>m. contactPointFrame l = Some (p ! m) \<and>
                 firstMinFrom h p RIGHT_WRIST (nat (trophyPoseIndex l)) (length p) m))"
proof -
  from tossLoop_start obtain tossF where toss: "tossLoop h p None = Inr tossF"
    and mem: "tossF = None \<or> (\<exists>f \<in> set p. tossF = Some f)" by blast
  define tossI where "tossI = frameIndex p tossF"
  define trophyF where "trophyF = (if tossI \<noteq> -1 then trophyLoop ops h p (nat tossI) else None)"
  define trophyI where "trophyI = frameIndex p trophyF"
  show ?thesis
  proof (cases trophyF)
    case None
    then have neg: "trophyI = -1" by (simp add: trophyI_def frameIndex_def)
    from passes_unfold [OF toss tossI_def trophyF_def trophyI_def] neg
    have "passes ops h p = Inr \<lparr>tossPeakFrame = tossF, tossPeakIndex = tossI,
        trophyPoseFrame = trophyF, trophyPoseIndex = trophyI, contactPointFrame = None\<rparr>"
      by simp
    then show ?thesis using mem None tossI_def trophyF_def trophyI_def
      by auto
  next
    case (Some r)
    then have loop: "trophyLoop ops h p (nat tossI) = Some r" and ti: "tossI \<noteq> -1"
      by (auto simp: trophyF_def split: if_splits)
    from trophyLoop_Some [OF loop] obtain i where i: "i < length p" "r = p ! i"
      "trophyTest ops (h (p ! i))" by blast
    then have rmem: "r \<in> set p" by simp
    from indexOf_nth [OF rmem] Some have idx: "0 \<le> trophyI" "nat trophyI < length p"
      "p ! nat trophyI = r" by (simp_all add: trophyI_def frameIndex_def)
    from idx(1) have ne: "trophyI \<noteq> -1" by simp
    from i idx(3) have "wristY h p RIGHT_WRIST (nat trophyI) \<noteq> None"
      by (auto simp: wristY_def dest: trophyTest_wrist)
    from contact_from [OF idx(2) this] obtain m
      where m: "contactLoop h p (nat trophyI) None = Inr (Some (p ! m))"
        "firstMinFrom h p RIGHT_WRIST (nat trophyI) (length p) m" by blast
    from passes_unfold [OF toss tossI_def trophyF_def trophyI_def] ne m(1)
    have "passes ops h p = Inr \<lparr>tossPeakFrame = tossF, tossPeakIndex = tossI,
        trophyPoseFrame = trophyF, trophyPoseIndex = trophyI,
        contactPointFrame = Some (p ! m)\<rparr>"
      by simp
    then show ?thesis using mem Some rmem i m(2) tossI_def trophyF_def trophyI_def
      by auto
  qed
qed

section \<open>Claims about the extractor\<close>

lemma analyze_long:
  assumes "10 \<le> length p" and "passes ops h p = Inr l"
  shows "analyzeKinematics ops h p d =
     Inr \<lparr>Serve_Start = Some (time (h (p ! 0))),
          Toss_Peak = frameTime h (tossPeakFrame l),
          Trophy_Pose = frameTime h (trophyPoseFrame l),
          Contact_Point = frameTime h (contactPointFrame l)\<rparr>"
  using assms by (simp add: analyzeKinematics_def)

lemma frameTime_None: "frameTime h f = None \<longleftrightarrow> f = None"
  by (simp add: frameTime_def split: option.splits)

lemma frameIndex_member:
  assumes "f \<in> set p"
  shows "0 \<le> frameIndex p (Some f) \<and> nat (frameIndex p (Some f)) < length p \<and>
         p ! nat (frameIndex p (Some f)) = f"
  using indexOf_nth [OF assms] by (simp add: frameIndex_def)

text \<open>
  C1 (as the code has it). For every buffer of at least 10 frames the extractor returns a
  result, and when a Trophy Pose frame was found, the returned Contact Point is the time
  of the frame, scanning forward from the Trophy Pose index to the end of the buffer, at
  which the right wrist attains its smallest vertical coordinate, ties resolved to the
  FIRST frame attaining that minimum (the comparison is strictly-less).
\<close>

theorem contact_point_first_minimum:
  assumes "10 \<le> length p"
  shows "\<exists>km l. analyzeKinematics ops h p d = Inr km \<and> passes ops h p = Inr l \<and>
     Trophy_Pose km = frameTime h (trophyPoseFrame l) \<and>
     (trophyPoseFrame l \<noteq> None \<longrightarrow>
        0 \<le> trophyPoseIndex l \<and> nat (trophyPoseIndex l) < length p \<and>
        trophyPoseFrame l = Some (p ! nat (trophyPoseIndex l)) \<and>
        (\<exists>i. firstMinFrom h p RIGHT_WRIST (nat (trophyPoseIndex l)) (length p) i \<and>
             Contact_Point km = Some (time (h (p ! i)))))"
proof -
  from passes_spec [of ops h p] obtain l where l: "passes ops h p = Inr l"
    "trophyPoseIndex l = frameIndex p (trophyPoseFrame l)"
    "\<forall>r. trophyPoseFrame l = Some r \<longrightarrow>
        r \<in> set p \<and> trophyTest ops (h r) \<and>
        (\<exists>m. contactPointFrame l = Some (p ! m) \<and>
             firstMinFrom h p RIGHT_WRIST (nat (trophyPoseIndex l)) (length p) m)"
    by blast
  let ?km = "\<lparr>Serve_Start = Some (time (h (p ! 0))),
          Toss_Peak = frameTime h (tossPeakFrame l),
          Trophy_Pose = frameTime h (trophyPoseFrame l),
          Contact_Point = frameTime h (contactPointFrame l)\<rparr>"
  have km: "analyzeKinematics ops h p d = Inr ?km" by (rule analyze_long [OF assms l(1)])
  have "trophyPoseFrame l \<noteq> None \<longrightarrow>
        0 \<le> trophyPoseIndex l \<and> nat (trophyPoseIndex l) < length p \<and>
        trophyPoseFrame l = Some (p ! nat (trophyPoseIndex l)) \<and>
        (\<exists>i. firstMinFrom h p RIGHT_WRIST (nat (trophyPoseIndex l)) (length p) i \<and>
             Contact_Point ?km = Some (time (h (p ! i))))"
  proof
    assume "trophyPoseFrame l \<noteq> None"
    then obtain r where r: "trophyPoseFrame l = Some r" by auto
    with l(3) obtain m where m: "r \<in> set p" "contactPointFrame l = Some (p ! m)"
      "firstMinFrom h p RIGHT_WRIST (nat (trophyPoseIndex l)) (length p) m" by blast
    from frameIndex_member [OF m(1)] r l(2)
    have "0 \<le> trophyPoseIndex l" "nat (trophyPoseIndex l) < length p"
      "p ! nat (trophyPoseIndex l) = r" by simp_all
    with r m show "0 \<le> trophyPoseIndex l \<and> nat (trophyPoseIndex l) < length p \<and>
        trophyPoseFrame l = Some (p ! nat (trophyPoseIndex l)) \<and>
        (\<exists>i. firstMinFrom h p RIGHT_WRIST (nat (trophyPoseIndex l)) (length p) i \<and>
             Contact_Point ?km = Some (time (h (p ! i))))"
      by (auto simp: frameTime_def)
  qed
  with km l(1) show ?thesis by (intro exI [of _ ?km] exI [of _ l]) simp
qed

text \<open>C1 on the example buffer A: the minimum 1/5 is attained at positions 5 and 7.\<close>

theorem contact_point_first_minimum_witness:
  "10 \<le> length exBufA \<and>
   analyzeKinematics exactOps exHeapA exBufA 9 =
     Inr \<lparr>Serve_Start = Some 0, Toss_Peak = Some 2, Trophy_Pose = Some 4,
          Contact_Point = Some 5\<rparr> \<and>
   (\<exists>i. firstMinFrom exHeapA exBufA RIGHT_WRIST 4 10 i \<and> time (exHeapA (exBufA ! i)) = 5)"
proof -
  have len: "10 \<le> length exBufA" by (simp add: exBufA_def)
  have len10: "length exBufA = 10" by (simp add: exBufA_def)
  from contact_point_first_minimum [OF len, of exactOps exHeapA 9]
  obtain km l where kl: "analyzeKinematics exactOps exHeapA exBufA 9 = Inr km"
    "passes exactOps exHeapA exBufA = Inr l"
    "trophyPoseFrame l \<noteq> None \<longrightarrow>
       (\<exists>i. firstMinFrom exHeapA exBufA RIGHT_WRIST (nat (trophyPoseIndex l)) (length exBufA) i \<and>
            Contact_Point km = Some (time (exHeapA (exBufA ! i))))"
    by blast
  from kl(1) have km: "Contact_Point km = Some 5" by (auto simp: exA_analyze)
  from kl(2) have "trophyPoseFrame l = Some 4" "trophyPoseIndex l = 4"
    by (auto simp: exA_passes)
  with kl(3) km len10
  have "\<exists>i. firstMinFrom exHeapA exBufA RIGHT_WRIST 4 10 i \<and> time (exHeapA (exBufA ! i)) = 5"
    by auto
  with len show ?thesis by (simp add: exA_analyze)
qed

text \<open>
  C1 as stated fails on the example buffer A: the last frame from position 4 on that
  attains the minimum is at position 7 (time 7), and the Contact Point returned is 5.
\<close>

theorem contact_point_last_tie_counterexample:
  "10 \<le> length exBufA \<and>
   analyzeKinematics exactOps exHeapA exBufA 9 =
     Inr \<lparr>Serve_Start = Some 0, Toss_Peak = Some 2, Trophy_Pose = Some 4,
          Contact_Point = Some 5\<rparr> \<and>
   passes exactOps exHeapA exBufA =
     Inr \<lparr>tossPeakFrame = Some 2, tossPeakIndex = 2, trophyPoseFrame = Some 4,
          trophyPoseIndex = 4, contactPointFrame = Some 5\<rparr> \<and>
   lastMinFrom exHeapA exBufA RIGHT_WRIST 4 10 7 \<and>
   \<not> lastMinFrom exHeapA exBufA RIGHT_WRIST 4 10 5 \<and>
   time (exHeapA (exBufA ! 7)) = 7 \<and> time (exHeapA (exBufA ! 5)) = 5"
proof -
  have "\<not> lastMinFrom exHeapA exBufA RIGHT_WRIST 4 10 5"
    by (simp add: lastMinFrom_def exA_wristY atLeastLessThan_upt upt_rec_numeral)
  then show ?thesis
    by (simp add: exA_analyze exA_passes exA_last)
      (simp add: exBufA_def exHeapA_vals exFrame_time)
qed

text \<open>
  C6. For every pose buffer with fewer than 10 frames and any duration, the extractor
  returns Toss Peak, Trophy Pose and Contact Point all absent, and Serve Start equal to
  the first frame's time when the buffer is non-empty and 0 when it is empty.
\<close>

theorem short_buffer_degenerate:
  assumes "length p < 10"
  shows "analyzeKinematics ops h p d =
     Inr \<lparr>Serve_Start = Some (if p = [] then 0 else time (h (p ! 0))),
          Toss_Peak = None, Trophy_Pose = None, Contact_Point = None\<rparr>"
  using assms by (simp add: analyzeKinematics_def)

theorem short_buffer_degenerate_witness:
  "length exBufShort < 10 \<and> length ([] :: ref list) < 10 \<and>
   analyzeKinematics exactOps exHeapA exBufShort 2 =
     Inr \<lparr>Serve_Start = Some 3, Toss_Peak = None, Trophy_Pose = None, Contact_Point = None\<rparr> \<and>
   analyzeKinematics exactOps exHeapA [] 2 =
     Inr \<lparr>Serve_Start = Some 0, Toss_Peak = None, Trophy_Pose = None, Contact_Point = None\<rparr>"
proof -
  have a: "length exBufShort < 10" by (simp add: exBufShort_def)
  have b: "length ([] :: ref list) < 10" by simp
  have c: "exBufShort \<noteq> []" "exBufShort ! 0 = 3" by (simp_all add: exBufShort_def)
  from short_buffer_degenerate [OF a, of exactOps exHeapA 2] short_buffer_degenerate [OF b, of exactOps exHeapA 2]
    a c
  show ?thesis by (simp add: exHeapA_vals exFrame_time)
qed



text \<open>
  C9. The extractor's output does not depend on its duration argument: for every pose
  buffer and any two durations the two results are identical.
\<close>

theorem duration_irrelevant:
  "analyzeKinematics ops h p d1 = analyzeKinematics ops h p d2"
  by (simp add: analyzeKinematics_def)

text \<open>
  C10. The extractor always returns a result, and whenever the result has a Trophy Pose
  it has a Contact Point: the Contact Point scan starts at a position that holds the
  Trophy Pose frame, and that frame has a right wrist.
\<close>

theorem trophy_implies_contact:
  "\<exists>km. analyzeKinematics ops h p d = Inr km \<and>
     (Trophy_Pose km \<noteq> None \<longrightarrow>
        Contact_Point km \<noteq> None \<and>
        (\<exists>l r. passes ops h p = Inr l \<and> trophyPoseFrame l = Some r \<and>
               0 \<le> trophyPoseIndex l \<and> p ! nat (trophyPoseIndex l) = r \<and>
               wristY h p RIGHT_WRIST (nat (trophyPoseIndex l)) \<noteq> None))"
proof (cases "length p < 10")
  case True
  then show ?thesis by (simp add: analyzeKinematics_def)
next
  case False
  then have len: "10 \<le> length p" by simp
  from passes_spec [of ops h p] obtain l where l: "passes ops h p = Inr l"
    "trophyPoseIndex l = frameIndex p (trophyPoseFrame l)"
    "\<forall>r. trophyPoseFrame l = Some r \<longrightarrow>
        r \<in> set p \<and> trophyTest ops (h r) \<and>
        (\<exists>m. contactPointFrame l = Some (p ! m) \<and>
             firstMinFrom h p RIGHT_WRIST (nat (trophyPoseIndex l)) (length p) m)"
    by blast
  let ?km = "\<lparr>Serve_Start = Some (time (h (p ! 0))),
          Toss_Peak = frameTime h (tossPeakFrame l),
          Trophy_Pose = frameTime h (trophyPoseFrame l),
          Contact_Point = frameTime h (contactPointFrame l)\<rparr>"
  have km: "analyzeKinematics ops h p d = Inr ?km" by (rule analyze_long [OF len l(1)])
  have "Trophy_Pose ?km \<noteq> None \<longrightarrow>
        Contact_Point ?km \<noteq> None \<and>
        (\<exists>l r. passes ops h p = Inr l \<and> trophyPoseFrame l = Some r \<and>
               0 \<le> trophyPoseIndex l \<and> p ! nat (trophyPoseIndex l) = r \<and>
               wristY h p RIGHT_WRIST (nat (trophyPoseIndex l)) \<noteq> None)"
  proof
    assume "Trophy_Pose ?km \<noteq> None"
    then obtain r where r: "trophyPoseFrame l = Some r" by (auto simp: frameTime_None)
    with l(3) obtain m where m: "r \<in> set p" "trophyTest ops (h r)"
      "contactPointFrame l = Some (p ! m)" by blast
    from frameIndex_member [OF m(1)] r l(2)
    have idx: "0 \<le> trophyPoseIndex l" "p ! nat (trophyPoseIndex l) = r" by simp_all
    from idx(2) m(2) have "wristY h p RIGHT_WRIST (nat (trophyPoseIndex l)) \<noteq> None"
      by (auto simp: wristY_def dest: trophyTest_wrist)
    with l(1) r idx m(3) show "Contact_Point ?km \<noteq> None \<and>
        (\<exists>l r. passes ops h p = Inr l \<and> trophyPoseFrame l = Some r \<and>
               0 \<le> trophyPoseIndex l \<and> p ! nat (trophyPoseIndex l) = r \<and>
               wristY h p RIGHT_WRIST (nat (trophyPoseIndex l)) \<noteq> None)"
      by (auto simp: frameTime_def)
  qed
  with km show ?thesis by (intro exI [of _ ?km]) simp
qed

theorem trophy_implies_contact_witness:
  "analyzeKinematics exactOps exHeapA exBufA 9 =
     Inr \<lparr>Serve_Start = Some 0, Toss_Peak = Some 2, Trophy_Pose = Some 4,
          Contact_Point = Some 5\<rparr> \<and>
   wristY exHeapA exBufA RIGHT_WRIST 4 \<noteq> None"
proof -
  from trophy_implies_contact [of exactOps exHeapA exBufA 9]
  obtain km where km: "analyzeKinematics exactOps exHeapA exBufA 9 = Inr km"
    "Trophy_Pose km \<noteq> None \<longrightarrow>
        Contact_Point km \<noteq> None \<and>
        (\<exists>l r. passes exactOps exHeapA exBufA = Inr l \<and> trophyPoseFrame l = Some r \<and>
               0 \<le> trophyPoseIndex l \<and> exBufA ! nat (trophyPoseIndex l) = r \<and>
               wristY exHeapA exBufA RIGHT_WRIST (nat (trophyPoseIndex l)) \<noteq> None)"
    by blast
  from km(1) have "Trophy_Pose km \<noteq> None" by (auto simp: exA_analyze)
  with km(2) have "wristY exHeapA exBufA RIGHT_WRIST 4 \<noteq> None"
    by (auto simp: exA_passes)
  then show ?thesis by (simp add: exA_analyze)
qed

lemma increasingTimes_distinct: "increasingTimes h p \<Longrightarrow> distinct p"
proof -
  assume "increasingTimes h p"
  then have "distinct (map (\<lambda>r. time (h r)) p)"
    by (simp add: increasingTimes_def strict_sorted_iff)
  then show "distinct p" by (simp add: distinct_map)
qed

lemma exA_increasing: "increasingTimes exHeapA exBufA"
  by (simp add: increasingTimes_def exBufA_def exHeapA_vals exFrame_time)

lemma indices_monotone_distinct:
  assumes "distinct p"
  shows "\<exists>km. analyzeKinematics ops h p d = Inr km \<and>
     (Toss_Peak km \<noteq> None \<and> Trophy_Pose km \<noteq> None \<and> Contact_Point km \<noteq> None \<longrightarrow>
        (\<exists>l i j k. passes ops h p = Inr l \<and>
           tossPeakFrame l = Some (p ! i) \<and> trophyPoseFrame l = Some (p ! j) \<and>
           contactPointFrame l = Some (p ! k) \<and>
           Toss_Peak km = Some (time (h (p ! i))) \<and>
           Trophy_Pose km = Some (time (h (p ! j))) \<and>
           Contact_Point km = Some (time (h (p ! k))) \<and>
           tossPeakIndex l = int i \<and> trophyPoseIndex l = int j \<and>
           frameIndex p (contactPointFrame l) = int k \<and>
           i \<le> j \<and> j \<le> k \<and> k < length p))"
proof (cases "length p < 10")
  case True
  then show ?thesis by (simp add: analyzeKinematics_def)
next
  case False
  then have len: "10 \<le> length p" by simp
  from passes_spec [of ops h p] obtain l where l: "passes ops h p = Inr l"
    "tossPeakIndex l = frameIndex p (tossPeakFrame l)"
    "trophyPoseIndex l = frameIndex p (trophyPoseFrame l)"
    "tossPeakFrame l = None \<or> (\<exists>f \<in> set p. tossPeakFrame l = Some f)"
    "trophyPoseFrame l =
       (if tossPeakIndex l \<noteq> -1 then trophyLoop ops h p (nat (tossPeakIndex l)) else None)"
    "\<forall>r. trophyPoseFrame l = Some r \<longrightarrow>
        r \<in> set p \<and> trophyTest ops (h r) \<and>
        (\<exists>m. contactPointFrame l = Some (p ! m) \<and>
             firstMinFrom h p RIGHT_WRIST (nat (trophyPoseIndex l)) (length p) m)"
    by blast
  let ?km = "\<lparr>Serve_Start = Some (time (h (p ! 0))),
          Toss_Peak = frameTime h (tossPeakFrame l),
          Trophy_Pose = frameTime h (trophyPoseFrame l),
          Contact_Point = frameTime h (contactPointFrame l)\<rparr>"
  have km: "analyzeKinematics ops h p d = Inr ?km" by (rule analyze_long [OF len l(1)])
  have "Toss_Peak ?km \<noteq> None \<and> Trophy_Pose ?km \<noteq> None \<and> Contact_Point ?km \<noteq> None \<longrightarrow>
        (\<exists>l i j k. passes ops h p = Inr l \<and>
           tossPeakFrame l = Some (p ! i) \<and> trophyPoseFrame l = Some (p ! j) \<and>
           contactPointFrame l = Some (p ! k) \<and>
           Toss_Peak ?km = Some (time (h (p ! i))) \<and>
           Trophy_Pose ?km = Some (time (h (p ! j))) \<and>
           Contact_Point ?km = Some (time (h (p ! k))) \<and>
           tossPeakIndex l = int i \<and> trophyPoseIndex l = int j \<and>
           frameIndex p (contactPointFrame l) = int k \<and>
           i \<le> j \<and> j \<le> k \<and> k < length p)"
  proof
    assume pres: "Toss_Peak ?km \<noteq> None \<and> Trophy_Pose ?km \<noteq> None \<and> Contact_Point ?km \<noteq> None"
    then obtain f r where f: "tossPeakFrame l = Some f" and r: "trophyPoseFrame l = Some r"
      by (auto simp: frameTime_None)
    from f l(4) have fmem: "f \<in> set p" by auto
    define i where "i = nat (tossPeakIndex l)"
    from frameIndex_member [OF fmem] f l(2)
    have ti: "tossPeakIndex l = int i" "i < length p" "p ! i = f" by (simp_all add: i_def)
    from ti(1) have "tossPeakIndex l \<noteq> -1" by simp
    with l(5) r have "trophyLoop ops h p i = Some r" by (simp add: i_def)
    from trophyLoop_Some [OF this] obtain j where j: "i \<le> j" "j < length p" "r = p ! j"
      by blast
    from indexOf_distinct [OF assms j(2)] r j(3) l(3)
    have tj: "trophyPoseIndex l = int j" by (simp add: frameIndex_def)
    from l(6) r tj obtain k where k: "contactPointFrame l = Some (p ! k)"
      "firstMinFrom h p RIGHT_WRIST j (length p) k" by auto
    from k(2) have jk: "j \<le> k" "k < length p" by (simp_all add: firstMinFrom_def)
    from indexOf_distinct [OF assms jk(2)] k(1)
    have ck: "frameIndex p (contactPointFrame l) = int k" by (simp add: frameIndex_def)
    from l(1) f r ti j tj k(1) jk ck
    show "\<exists>l i j k. passes ops h p = Inr l \<and>
           tossPeakFrame l = Some (p ! i) \<and> trophyPoseFrame l = Some (p ! j) \<and>
           contactPointFrame l = Some (p ! k) \<and>
           Toss_Peak ?km = Some (time (h (p ! i))) \<and>
           Trophy_Pose ?km = Some (time (h (p ! j))) \<and>
           Contact_Point ?km = Some (time (h (p ! k))) \<and>
           tossPeakIndex l = int i \<and> trophyPoseIndex l = int j \<and>
           frameIndex p (contactPointFrame l) = int k \<and>
           i \<le> j \<and> j \<le> k \<and> k < length p"
      by (intro exI [of _ l] exI [of _ i] exI [of _ j] exI [of _ k]) (simp add: frameTime_def)
  qed
  with km show ?thesis by (intro exI [of _ ?km]) simp
qed

text \<open>
  C8. For every pose buffer (frames at strictly increasing times, as the frame collection
  loop appends them) and every duration for which Toss Peak, Trophy Pose and Contact
  Point are all present in the extractor's result, the buffer index of the Toss Peak
  frame is at most the index of the Trophy Pose frame, which is at most the index of the
  Contact Point frame.
\<close>

theorem key_moment_indices_monotone:
  assumes "increasingTimes h p"
  shows "\<exists>km. analyzeKinematics ops h p d = Inr km \<and>
     (Toss_Peak km \<noteq> None \<and> Trophy_Pose km \<noteq> None \<and> Contact_Point km \<noteq> None \<longrightarrow>
        (\<exists>l i j k. passes ops h p = Inr l \<and>
           tossPeakFrame l = Some (p ! i) \<and> trophyPoseFrame l = Some (p ! j) \<and>
           contactPointFrame l = Some (p ! k) \<and>
           Toss_Peak km = Some (time (h (p ! i))) \<and>
           Trophy_Pose km = Some (time (h (p ! j))) \<and>
           Contact_Point km = Some (time (h (p ! k))) \<and>
           tossPeakIndex l = int i \<and> trophyPoseIndex l = int j \<and>
           frameIndex p (contactPointFrame l) = int k \<and>
           i \<le> j \<and> j \<le> k \<and> k < length p))"
  by (rule indices_monotone_distinct [OF increasingTimes_distinct [OF assms]])

text \<open>C8 on the example buffer A: the three frames are at positions 2, 4 and 5.\<close>

theorem key_moment_indices_monotone_witness:
  "increasingTimes exHeapA exBufA \<and>
   analyzeKinematics exactOps exHeapA exBufA 9 =
     Inr \<lparr>Serve_Start = Some 0, Toss_Peak = Some 2, Trophy_Pose = Some 4,
          Contact_Point = Some 5\<rparr> \<and>
   (\<exists>i j k. exBufA ! i = 2 \<and> exBufA ! j = 4 \<and> exBufA ! k = 5 \<and> i \<le> j \<and> j \<le> k \<and> k < 10)"
proof -
  have len: "length exBufA = 10" by (simp add: exBufA_def)
  from key_moment_indices_monotone [OF exA_increasing, of exactOps 9]
  obtain km where km: "analyzeKinematics exactOps exHeapA exBufA 9 = Inr km"
    "Toss_Peak km \<noteq> None \<and> Trophy_Pose km \<noteq> None \<and> Contact_Point km \<noteq> None \<longrightarrow>
        (\<exists>l i j k. passes exactOps exHeapA exBufA = Inr l \<and>
           tossPeakFrame l = Some (exBufA ! i) \<and> trophyPoseFrame l = Some (exBufA ! j) \<and>
           contactPointFrame l = Some (exBufA ! k) \<and>
           i \<le> j \<and> j \<le> k \<and> k < length exBufA)"
    by blast
  from km(1) have "Toss_Peak km \<noteq> None \<and> Trophy_Pose km \<noteq> None \<and> Contact_Point km \<noteq> None"
    by (auto simp: exA_analyze)
  with km(2) len
  have "\<exists>i j k. exBufA ! i = 2 \<and> exBufA ! j = 4 \<and> exBufA ! k = 5 \<and> i \<le> j \<and> j \<le> k \<and> k < 10"
    by (auto simp: exA_passes)
  with exA_increasing show ?thesis by (simp add: exA_analyze)
qed

section \<open>Lemmas: the gesture detector\<close>

lemma findRaisedWrist_cases:
  "(\<exists>w. findRaisedWrist r = (True, Some w)) \<or> findRaisedWrist r = (False, None)"
  by (auto simp: findRaisedWrist_def Let_def wristAbove_def split: option.splits)

lemma raisedAt_None: "raisedAt r = None \<longleftrightarrow> findRaisedWrist r = (False, None)"
  using findRaisedWrist_cases [of r] by (auto simp: raisedAt_def)

lemma raisedAt_Some:
  "raisedAt r = Some a \<longleftrightarrow> (\<exists>w. findRaisedWrist r = (True, Some w) \<and> a = (x w, y w))"
  using findRaisedWrist_cases [of r] by (auto simp: raisedAt_def)

lemma detectLoop_idle:
  assumes "raisedAt r = None"
  shows "detectLoop ops r \<lparr>lastWristPos = lp, stillFrameCount = c, lastReportedState = st,
            callbacks = cb, scheduled = sc\<rparr> =
         \<lparr>lastWristPos = None, stillFrameCount = 0, lastReportedState = idle,
          callbacks = cb @ (if st = idle then [] else [idle]), scheduled = True\<rparr>"
  using assms
  by (simp add: raisedAt_None detectLoop_def reportState_def STILL_FRAMES_REQUIRED_def)

lemma detectLoop_first:
  assumes "raisedAt r = Some a"
  shows "detectLoop ops r \<lparr>lastWristPos = None, stillFrameCount = c, lastReportedState = st,
            callbacks = cb, scheduled = sc\<rparr> =
         \<lparr>lastWristPos = Some a, stillFrameCount = 1, lastReportedState = detecting,
          callbacks = cb @ (if st = detecting then [] else [detecting]), scheduled = True\<rparr>"
  using assms
  by (auto simp: raisedAt_Some detectLoop_def reportState_def STILL_FRAMES_REQUIRED_def)

lemma detectLoop_moved:
  assumes "raisedAt r = Some a" and "\<not> withinThreshold ops a b"
  shows "detectLoop ops r \<lparr>lastWristPos = Some b, stillFrameCount = c, lastReportedState = st,
            callbacks = cb, scheduled = sc\<rparr> =
         \<lparr>lastWristPos = Some a, stillFrameCount = 1, lastReportedState = detecting,
          callbacks = cb @ (if st = detecting then [] else [detecting]), scheduled = True\<rparr>"
  using assms
  by (cases b)
    (auto simp: raisedAt_Some detectLoop_def reportState_def STILL_FRAMES_REQUIRED_def
      withinThreshold_def wristDistance_def Let_def)

lemma detectLoop_still:
  assumes "raisedAt r = Some a" and "withinThreshold ops a b"
    and "Suc c < STILL_FRAMES_REQUIRED"
  shows "detectLoop ops r \<lparr>lastWristPos = Some b, stillFrameCount = c,
            lastReportedState = detecting, callbacks = cb, scheduled = sc\<rparr> =
         \<lparr>lastWristPos = Some b, stillFrameCount = Suc c, lastReportedState = detecting,
          callbacks = cb, scheduled = True\<rparr>"
  using assms
  by (cases b)
    (auto simp: raisedAt_Some detectLoop_def reportState_def withinThreshold_def wristDistance_def Let_def)

lemma detectLoop_lock:
  assumes "raisedAt r = Some a" and "withinThreshold ops a b"
    and "STILL_FRAMES_REQUIRED \<le> Suc c"
  shows "detectLoop ops r \<lparr>lastWristPos = Some b, stillFrameCount = c,
            lastReportedState = detecting, callbacks = cb, scheduled = sc\<rparr> =
         \<lparr>lastWristPos = Some b, stillFrameCount = Suc c, lastReportedState = locked,
          callbacks = cb @ [locked], scheduled = False\<rparr>"
  using assms
  by (cases b)
    (auto simp: raisedAt_Some detectLoop_def reportState_def withinThreshold_def wristDistance_def Let_def)

lemma runDetector_stopped: "\<not> scheduled s \<Longrightarrow> runDetector ops s rs = s"
  by (cases rs) simp_all

lemma runDetector_append:
  "runDetector ops s (rs @ rs') = runDetector ops (runDetector ops s rs) rs'"
proof (induction rs arbitrary: s)
  case Nil
  show ?case by simp
next
  case (Cons r rs)
  show ?case
  proof (cases "scheduled s")
    case True
    with Cons show ?thesis by simp
  next
    case False
    then show ?thesis by (simp add: runDetector_stopped)
  qed
qed

lemma run_idle:
  assumes "rs \<noteq> []" and "\<forall>r \<in> set rs. raisedAt r = None"
  shows "runDetector ops \<lparr>lastWristPos = lp, stillFrameCount = c, lastReportedState = st,
            callbacks = cb, scheduled = True\<rparr> rs =
         \<lparr>lastWristPos = None, stillFrameCount = 0, lastReportedState = idle,
          callbacks = cb @ (if st = idle then [] else [idle]), scheduled = True\<rparr>"
  using assms
proof (induction rs arbitrary: lp c st cb)
  case Nil
  then show ?case by simp
next
  case (Cons r rs)
  from Cons.prems have r: "raisedAt r = None" by simp
  show ?case
  proof (cases "rs = []")
    case True
    then show ?thesis by (simp add: detectLoop_idle [OF r])
  next
    case False
    from Cons.prems have "\<forall>r \<in> set rs. raisedAt r = None" by simp
    from Cons.IH [OF False this] show ?thesis
      by (simp add: detectLoop_idle [OF r])
  qed
qed

lemma run_still:
  assumes "\<forall>r \<in> set rs. \<exists>a. raisedAt r = Some a \<and> withinThreshold ops a b"
    and "c + length rs < STILL_FRAMES_REQUIRED"
  shows "runDetector ops \<lparr>lastWristPos = Some b, stillFrameCount = c,
            lastReportedState = detecting, callbacks = cb, scheduled = True\<rparr> rs =
         \<lparr>lastWristPos = Some b, stillFrameCount = c + length rs,
          lastReportedState = detecting, callbacks = cb, scheduled = True\<rparr>"
  using assms
proof (induction rs arbitrary: c)
  case Nil
  then show ?case by simp
next
  case (Cons r rs)
  from Cons.prems(1) obtain a where a: "raisedAt r = Some a"
    "withinThreshold ops a b" by auto
  from Cons.prems(2) have lt: "Suc c < STILL_FRAMES_REQUIRED" by simp
  from Cons.prems have "\<forall>r \<in> set rs. \<exists>a. raisedAt r = Some a \<and> withinThreshold ops a b"
    and "Suc c + length rs < STILL_FRAMES_REQUIRED" by simp_all
  from Cons.IH [OF this] show ?case
    by (simp add: detectLoop_still [OF a lt])
qed

lemma exTick_raised: "raisedAt (exTick a b) = Some (a, b)"
  by (simp add: raisedAt_def findRaisedWrist_def exTick_def Let_def elemAt_def wristAbove_def
      WRIST_L_def SHOULDER_L_def WRIST_R_def SHOULDER_R_def nth_append pt_sel)

lemma noPose_idle: "raisedAt noPose = None"
  by (simp add: raisedAt_def findRaisedWrist_def noPose_def)

text \<open>Without rounding the computed distance is the Euclidean distance in the plane.\<close>

lemma exact_distance:
  "wristDistance exactOps (a1, a2) (b1, b2) = Some (sqrt ((a1 - b1)\<^sup>2 + (a2 - b2)\<^sup>2))"
  by (simp add: wristDistance_def exactOps_sel lift2_Some power2_eq_square)

lemma exact_within:
  "withinThreshold exactOps (a1, a2) (b1, b2) \<longleftrightarrow>
     (a1 - b1) * (a1 - b1) + (a2 - b2) * (a2 - b2) < (2/100)\<^sup>2"
proof -
  let ?u = "(a1 - b1) * (a1 - b1) + (a2 - b2) * (a2 - b2)"
  have nonneg: "0 \<le> ?u" by simp
  have "sqrt ?u < 2/100 \<longleftrightarrow> ?u < (2/100)\<^sup>2"
    using real_sqrt_less_iff [of ?u "(2/100)\<^sup>2"] by simp
  with nonneg show ?thesis
    by (simp add: withinThreshold_def wristDistance_def exactOps_sel lift2_Some
        STILLNESS_THRESHOLD_def)
qed

lemma detectLoop_near:
  assumes "raisedAt r = Some a" and "withinThreshold ops a b"
  shows "detectLoop ops r \<lparr>lastWristPos = Some b, stillFrameCount = c, lastReportedState = st,
            callbacks = cb, scheduled = sc\<rparr> =
         (if STILL_FRAMES_REQUIRED \<le> Suc c
          then \<lparr>lastWristPos = Some b, stillFrameCount = Suc c, lastReportedState = locked,
                callbacks = cb @ (if st = detecting then [] else [detecting]) @ [locked],
                scheduled = False\<rparr>
          else \<lparr>lastWristPos = Some b, stillFrameCount = Suc c,
                lastReportedState = detecting,
                callbacks = cb @ (if st = detecting then [] else [detecting]),
                scheduled = True\<rparr>)"
proof -
  from assms(1) obtain w where w: "findRaisedWrist r = (True, Some w)" "a = (x w, y w)"
    by (auto simp: raisedAt_Some)
  obtain px py where b: "b = (px, py)" by (cases b)
  from assms(2) w(2) b
  have d: "flt ops
             (fsqrt ops
                (fadd ops (fpow ops (fsub ops (flit ops (x w)) (flit ops px)) (flit ops 2))
                          (fpow ops (fsub ops (flit ops (y w)) (flit ops py)) (flit ops 2))))
             (flit ops STILLNESS_THRESHOLD)"
    by (simp add: withinThreshold_def wristDistance_def)
  show ?thesis
  proof (cases "st = detecting")
    case True
    with w(1) b d show ?thesis
      by (simp add: detectLoop_def reportState_def Let_def)
  next
    case False
    with w(1) b d show ?thesis
      by (simp add: detectLoop_def reportState_def Let_def)
  qed
qed

lemma detectLoop_inv:
  assumes "detectorInv s" and "scheduled s"
  shows "detectorInv (detectLoop ops r s)"
proof (cases s)
  case (fields lp c st cb sc)
  with assms have sc: "sc = True" and nl: "locked \<notin> set cb" "st \<noteq> locked"
    by (simp_all add: detectorInv_def)
  show ?thesis
  proof (cases "raisedAt r")
    case None
    from detectLoop_idle [OF None, of ops lp c st cb sc] fields nl show ?thesis
      by (simp add: detectorInv_def STILL_FRAMES_REQUIRED_def)
  next
    case (Some a)
    show ?thesis
    proof (cases lp)
      case None
      from detectLoop_first [OF Some, of ops c st cb sc] fields None nl show ?thesis
        by (simp add: detectorInv_def STILL_FRAMES_REQUIRED_def)
    next
      case (Some b)
      show ?thesis
      proof (cases "withinThreshold ops a b")
        case False
        from detectLoop_moved [OF \<open>raisedAt r = Some a\<close> False, of c st cb sc] fields Some nl
        show ?thesis by (simp add: detectorInv_def STILL_FRAMES_REQUIRED_def)
      next
        case True
        from detectLoop_near [OF \<open>raisedAt r = Some a\<close> True, of c st cb sc] fields Some nl
        show ?thesis by (auto simp: detectorInv_def count_list_0_iff)
      qed
    qed
  qed
qed

lemma runDetector_inv: "detectorInv s \<Longrightarrow> detectorInv (runDetector ops s rs)"
proof (induction rs arbitrary: s)
  case Nil
  then show ?case by simp
next
  case (Cons r rs)
  show ?case
  proof (cases "scheduled s")
    case True
    from Cons.IH [OF detectLoop_inv [OF Cons.prems True]] True show ?thesis by simp
  next
    case False
    with Cons.prems show ?thesis by simp
  qed
qed

lemma initialDetector_inv: "detectorInv initialDetector"
  by (simp add: detectorInv_def initialDetector_def STILL_FRAMES_REQUIRED_def)

lemma run_to_lock:
  assumes "\<forall>r \<in> set (rs @ [r']). \<exists>a. raisedAt r = Some a \<and> withinThreshold ops a b"
    and "Suc (c + length rs) = STILL_FRAMES_REQUIRED"
  shows "runDetector ops \<lparr>lastWristPos = Some b, stillFrameCount = c,
            lastReportedState = detecting, callbacks = cb, scheduled = True\<rparr> (rs @ [r']) =
         \<lparr>lastWristPos = Some b, stillFrameCount = STILL_FRAMES_REQUIRED,
          lastReportedState = locked, callbacks = cb @ [locked], scheduled = False\<rparr>"
proof -
  from assms(1) have a: "\<forall>r \<in> set rs. \<exists>a. raisedAt r = Some a \<and> withinThreshold ops a b"
    by simp
  from assms(1) obtain a' where a': "raisedAt r' = Some a'"
    "withinThreshold ops a' b" by auto
  from assms(2) have lt: "c + length rs < STILL_FRAMES_REQUIRED" by simp
  from assms(2) have ge: "STILL_FRAMES_REQUIRED \<le> Suc (c + length rs)" by simp
  show ?thesis
    by (simp add: runDetector_append run_still [OF a lt] detectLoop_lock [OF a' ge] assms(2))
qed

section \<open>Claims about the gesture detector\<close>

text \<open>
  C2 (as the code has it). \<open>reportState\<close> invokes the callback exactly when the new state
  differs from the last reported one, which is \<open>idle\<close> when the detector starts. So a
  non-empty run of ticks that all evaluate to idle (200 of them, say) invokes the
  callback once with \<open>idle\<close> if the last reported state before the run was not \<open>idle\<close>,
  and not at all if it was, as at the start of an activation.
\<close>

theorem idle_run_edge_triggered:
  assumes "scheduled s" and "rs \<noteq> []" and "\<forall>r \<in> set rs. raisedAt r = None"
  shows "callbacks (runDetector ops s rs) =
           callbacks s @ (if lastReportedState s = idle then [] else [idle]) \<and>
         lastReportedState (runDetector ops s rs) = idle \<and>
         (\<forall>n s'. callbacks (reportState n s') =
                    callbacks s' @ (if n \<noteq> lastReportedState s' then [n] else []) \<and>
                  lastReportedState (reportState n s') = n)"
proof -
  obtain lp c st cb sc where s: "s = \<lparr>lastWristPos = lp, stillFrameCount = c,
      lastReportedState = st, callbacks = cb, scheduled = sc\<rparr>" by (cases s)
  with assms(1) have "sc = True" by simp
  with s run_idle [OF assms(2,3), of ops lp c st cb]
  have "callbacks (runDetector ops s rs) =
           callbacks s @ (if lastReportedState s = idle then [] else [idle]) \<and>
        lastReportedState (runDetector ops s rs) = idle" by simp
  moreover have "\<forall>n s'. callbacks (reportState n s') =
                    callbacks s' @ (if n \<noteq> lastReportedState s' then [n] else []) \<and>
                  lastReportedState (reportState n s') = n"
    by (simp add: reportState_def)
  ultimately show ?thesis by simp
qed

text \<open>C2 after one raised tick: 200 idle ticks give exactly one \<open>idle\<close> callback.\<close>

theorem idle_run_edge_triggered_witness:
  "scheduled (runDetector exactOps initialDetector [exTick (1/2) (3/10)]) \<and>
   replicate 200 noPose \<noteq> [] \<and> raisedAt noPose = None \<and>
   callbacks (runDetector exactOps initialDetector [exTick (1/2) (3/10)]) = [detecting] \<and>
   callbacks (runDetector exactOps (runDetector exactOps initialDetector [exTick (1/2) (3/10)])
                (replicate 200 noPose)) = [detecting, idle]"
proof -
  have s: "runDetector exactOps initialDetector [exTick (1/2) (3/10)] =
     \<lparr>lastWristPos = Some (1/2, 3/10), stillFrameCount = 1, lastReportedState = detecting,
      callbacks = [detecting], scheduled = True\<rparr>"
    by (simp add: initialDetector_def detectLoop_first [OF exTick_raised])
  have a: "scheduled (runDetector exactOps initialDetector [exTick (1/2) (3/10)])" by (subst s) simp
  have b: "replicate 200 noPose \<noteq> []" by simp
  have c: "\<forall>r \<in> set (replicate 200 noPose). raisedAt r = None" by (simp add: noPose_idle)
  from idle_run_edge_triggered [OF a b c, of exactOps]
  have "callbacks (runDetector exactOps (runDetector exactOps initialDetector [exTick (1/2) (3/10)])
                (replicate 200 noPose)) =
        callbacks (runDetector exactOps initialDetector [exTick (1/2) (3/10)]) @
          (if lastReportedState (runDetector exactOps initialDetector [exTick (1/2) (3/10)]) = idle
           then [] else [idle])" by blast
  then have "callbacks (runDetector exactOps (runDetector exactOps initialDetector [exTick (1/2) (3/10)])
                (replicate 200 noPose)) = [detecting, idle]"
    unfolding s by simp
  moreover have "callbacks (runDetector exactOps initialDetector [exTick (1/2) (3/10)]) = [detecting]"
    by (subst s) simp
  ultimately show ?thesis using a b noPose_idle by blast
qed

text \<open>
  C2 as stated fails at the start of an activation: 200 idle ticks fed to a fresh detector
  invoke the callback zero times, not once.
\<close>

theorem idle_run_fresh_counterexample:
  "raisedAt noPose = None \<and> length (replicate 200 noPose) = 200 \<and>
   callbacks (runDetector exactOps initialDetector (replicate 200 noPose)) = [] \<and>
   count_list (callbacks (runDetector exactOps initialDetector (replicate 200 noPose))) idle = 0"
proof -
  have b: "replicate 200 noPose \<noteq> []" by simp
  have c: "\<forall>r \<in> set (replicate 200 noPose). raisedAt r = None" by (simp add: noPose_idle)
  from run_idle [OF b c, of exactOps None 0 idle "[]"] show ?thesis
    by (simp add: initialDetector_def noPose_idle)
qed



text \<open>
  C5. In every run of a detector from its start, \<open>locked\<close> is reported at most once. It
  has been reported exactly when the stillness counter has reached 120; from then on the
  loop is no longer requested, \<open>locked\<close> is the last callback, and whatever ticks follow
  leave the detector and its callbacks unchanged.
\<close>

theorem locked_reported_once:
  "count_list (callbacks (runDetector ops initialDetector rs)) locked \<le> 1 \<and>
   (locked \<in> set (callbacks (runDetector ops initialDetector rs)) \<longleftrightarrow>
      STILL_FRAMES_REQUIRED \<le> stillFrameCount (runDetector ops initialDetector rs)) \<and>
   (locked \<in> set (callbacks (runDetector ops initialDetector rs)) \<longrightarrow>
      \<not> scheduled (runDetector ops initialDetector rs) \<and>
      count_list (callbacks (runDetector ops initialDetector rs)) locked = 1 \<and>
      last (callbacks (runDetector ops initialDetector rs)) = locked \<and>
      (\<forall>rs'. runDetector ops initialDetector (rs @ rs') = runDetector ops initialDetector rs))"
proof -
  let ?r = "runDetector ops initialDetector rs"
  have inv: "detectorInv ?r" by (rule runDetector_inv [OF initialDetector_inv])
  show ?thesis
  proof (cases "scheduled ?r")
    case True
    with inv have "locked \<notin> set (callbacks ?r)" "stillFrameCount ?r < STILL_FRAMES_REQUIRED"
      by (simp_all add: detectorInv_def)
    then show ?thesis by (simp add: count_list_0_iff [THEN iffD2])
  next
    case False
    with inv have f: "count_list (callbacks ?r) locked = 1" "last (callbacks ?r) = locked"
      "STILL_FRAMES_REQUIRED \<le> stillFrameCount ?r"
      by (simp_all add: detectorInv_def)
    from f(1) have "locked \<in> set (callbacks ?r)"
      using count_list_0_iff [of "callbacks ?r" locked] by auto
    with f False show ?thesis
      by (simp add: runDetector_append runDetector_stopped)
  qed
qed

text \<open>
  C5 on a concrete run: 120 stationary raised ticks lock the detector; an idle tick and a
  moved raised tick after that change nothing.
\<close>

theorem locked_reported_once_witness:
  "callbacks (runDetector exactOps initialDetector (replicate 120 (exTick (1/2) (3/10)))) =
     [detecting, locked] \<and>
   runDetector exactOps initialDetector
     (replicate 120 (exTick (1/2) (3/10)) @ [noPose, exTick (3/5) (3/10)]) =
   runDetector exactOps initialDetector (replicate 120 (exTick (1/2) (3/10)))"
proof -
  let ?t = "exTick (1/2) (3/10)"
  have still: "\<forall>r \<in> set (replicate 118 ?t @ [?t]).
              \<exists>c. raisedAt r = Some c \<and> withinThreshold exactOps c (1/2, 3/10)"
    by (simp add: exTick_raised exact_within)
  have cnt: "Suc (1 + length (replicate 118 ?t)) = STILL_FRAMES_REQUIRED"
    by (simp add: STILL_FRAMES_REQUIRED_def)
  have first: "runDetector exactOps initialDetector [?t] =
     \<lparr>lastWristPos = Some (1/2, 3/10), stillFrameCount = 1, lastReportedState = detecting,
      callbacks = [detecting], scheduled = True\<rparr>"
    by (simp add: initialDetector_def detectLoop_first [OF exTick_raised])
  have shape: "replicate 120 ?t = [?t] @ (replicate 118 ?t @ [?t])"
    by (simp add: replicate_append_same [symmetric] del: replicate_Suc replicate_append_same)
      (simp add: numeral_eq_Suc)
  have run: "runDetector exactOps initialDetector (replicate 120 ?t) =
     \<lparr>lastWristPos = Some (1/2, 3/10), stillFrameCount = STILL_FRAMES_REQUIRED,
      lastReportedState = locked, callbacks = [detecting, locked], scheduled = False\<rparr>"
    unfolding shape runDetector_append [of exactOps initialDetector "[?t]"] first
    using run_to_lock [OF still cnt, of "[detecting]"] by simp
  then have cb: "callbacks (runDetector exactOps initialDetector (replicate 120 ?t)) = [detecting, locked]"
    by simp
  then have mem: "locked \<in> set (callbacks (runDetector exactOps initialDetector (replicate 120 ?t)))"
    by simp
  from locked_reported_once [of exactOps "replicate 120 ?t"] mem
  have "\<forall>rs'. runDetector exactOps initialDetector (replicate 120 ?t @ rs') =
              runDetector exactOps initialDetector (replicate 120 ?t)" by blast
  with cb show ?thesis by blast
qed

section \<open>The frame collection loop\<close>

lemma runCollector_resolved: "resolved s \<Longrightarrow> runCollector d s vs = s"
  by (cases vs) simp_all

lemma processFrame_log:
  "progressLog (processFrame d v s) =
     (if paused v \<or> ended v then progressLog s @ [Some 100]
      else if currentTime v > lastTime s
      then progressLog s @ [map_option (\<lambda>q. q * 100) (jsDiv (currentTime v) d)]
      else progressLog s)"
  by (simp add: processFrame_def Let_def)

lemma processFrame_resolved:
  "resolved (processFrame d v s) = (paused v \<or> ended v \<or> resolved s)"
  by (simp add: processFrame_def Let_def)

lemma percent_in_range:
  assumes "0 < d" and "0 \<le> t" and "t \<le> d"
  shows "inPercentRange (map_option (\<lambda>q. q * 100) (jsDiv t d))"
  using assms by (simp add: inPercentRange_def jsDiv_def field_simps)

lemma processFrame_range:
  assumes "0 < d" and "0 \<le> currentTime v" and "currentTime v \<le> d"
    and "\<forall>q \<in> set (progressLog s). inPercentRange q"
  shows "\<forall>q \<in> set (progressLog (processFrame d v s)). inPercentRange q"
  using assms percent_in_range [OF assms(1,2,3)]
  by (auto simp: processFrame_log inPercentRange_def)

lemma runCollector_range:
  assumes "0 < d" and "\<forall>v \<in> set vs. 0 \<le> currentTime v \<and> currentTime v \<le> d"
    and "\<forall>q \<in> set (progressLog s). inPercentRange q"
  shows "\<forall>q \<in> set (progressLog (runCollector d s vs)). inPercentRange q"
  using assms(2,3)
proof (induction vs arbitrary: s)
  case Nil
  then show ?case by simp
next
  case (Cons v vs)
  show ?case
  proof (cases "resolved s")
    case True
    with Cons.prems show ?thesis by simp
  next
    case False
    from Cons.prems have v: "0 \<le> currentTime v" "currentTime v \<le> d"
      and rest: "\<forall>v \<in> set vs. 0 \<le> currentTime v \<and> currentTime v \<le> d" by simp_all
    from Cons.IH [OF rest processFrame_range [OF assms(1) v Cons.prems(2)]] False
    show ?thesis by simp
  qed
qed

lemma processFrame_done: "doneInv s \<Longrightarrow> \<not> resolved s \<Longrightarrow> doneInv (processFrame d v s)"
  by (simp add: doneInv_def processFrame_def Let_def)

lemma runCollector_done: "doneInv s \<Longrightarrow> doneInv (runCollector d s vs)"
proof (induction vs arbitrary: s)
  case Nil
  then show ?case by simp
next
  case (Cons v vs)
  show ?case
  proof (cases "resolved s")
    case True
    with Cons.prems show ?thesis by simp
  next
    case False
    from Cons.IH [OF processFrame_done [OF Cons.prems False]] False show ?thesis by simp
  qed
qed

lemma runCollector_final:
  "\<exists>v \<in> set vs. paused v \<or> ended v \<Longrightarrow> resolved (runCollector d s vs)"
proof (induction vs arbitrary: s)
  case Nil
  then show ?case by simp
next
  case (Cons v vs)
  show ?case
  proof (cases "resolved s")
    case True
    then show ?thesis by simp
  next
    case False
    show ?thesis
    proof (cases "paused v \<or> ended v")
      case True
      then have "resolved (processFrame d v s)" by (auto simp: processFrame_resolved)
      with False show ?thesis by (simp add: runCollector_resolved)
    next
      case False
      with Cons.prems have "\<exists>v \<in> set vs. paused v \<or> ended v" by auto
      from Cons.IH [OF this] \<open>\<not> resolved s\<close> show ?thesis by simp
    qed
  qed
qed

text \<open>
  The buffer the loop builds has strictly increasing times; stored as fresh objects in
  the order of collection it is a pose buffer in the sense of \<open>increasingTimes\<close>.
\<close>

lemma processFrame_times: "timesInv s \<Longrightarrow> timesInv (processFrame d v s)"
  by (auto simp: timesInv_def processFrame_def Let_def sorted_wrt_append)

lemma runCollector_times: "timesInv s \<Longrightarrow> timesInv (runCollector d s vs)"
proof (induction vs arbitrary: s)
  case Nil
  then show ?case by simp
next
  case (Cons v vs)
  show ?case
  proof (cases "resolved s")
    case True
    with Cons.prems show ?thesis by simp
  next
    case False
    from Cons.IH [OF processFrame_times [OF Cons.prems]] False show ?thesis by simp
  qed
qed

lemma collected_times_increasing:
  "sorted_wrt (<) (map time (poseData (runCollector d initialCollector vs)))"
proof -
  have "timesInv initialCollector" by (simp add: timesInv_def initialCollector_def)
  from runCollector_times [OF this] show ?thesis by (simp add: timesInv_def)
qed

lemma stored_buffer_increasing:
  assumes "sorted_wrt (<) (map time fs)"
  shows "increasingTimes (heapOf fs) [0..<length fs]"
proof -
  have "map (\<lambda>r. time (heapOf fs r)) [0..<length fs] = map time fs"
    by (rule nth_equalityI) (simp_all add: heapOf_def)
  with assms show ?thesis by (simp add: increasingTimes_def)
qed

lemma collected_buffer_is_pose_buffer:
  "increasingTimes (heapOf (poseData (runCollector d initialCollector vs)))
     [0..<length (poseData (runCollector d initialCollector vs))]"
  by (rule stored_buffer_increasing [OF collected_times_increasing])

section \<open>Claims about the frame collection loop\<close>

text \<open>
  C3 (as the code has it). The progress emitted for a processed frame is
  current-time / total-duration * 100, not clamped: the emitted values all lie in
  [0,100] when the duration is positive and every current time lies between 0 and the
  duration. Whatever the inputs, once a tick finds the video paused or ended the loop
  resolves and the last progress emitted is exactly 100, also when that tick carries no
  detection.
\<close>

theorem progress_range_and_completion:
  "(0 < d \<and> (\<forall>v \<in> set vs. 0 \<le> currentTime v \<and> currentTime v \<le> d) \<longrightarrow>
      (\<forall>q \<in> set (progressLog (runCollector d initialCollector vs)). inPercentRange q)) \<and>
   ((\<exists>v \<in> set vs. paused v \<or> ended v) \<longrightarrow>
      resolved (runCollector d initialCollector vs) \<and>
      progressLog (runCollector d initialCollector vs) \<noteq> [] \<and>
      last (progressLog (runCollector d initialCollector vs)) = Some 100) \<and>
   (\<forall>v s. \<not> paused v \<and> \<not> ended v \<and> lastTime s < currentTime v \<and> d \<noteq> 0 \<longrightarrow>
      progressLog (processFrame d v s) = progressLog s @ [Some (currentTime v / d * 100)])"
proof -
  have init: "\<forall>q \<in> set (progressLog initialCollector). inPercentRange q"
    by (simp add: initialCollector_def)
  have A: "0 < d \<and> (\<forall>v \<in> set vs. 0 \<le> currentTime v \<and> currentTime v \<le> d) \<longrightarrow>
      (\<forall>q \<in> set (progressLog (runCollector d initialCollector vs)). inPercentRange q)"
    using runCollector_range [OF _ _ init, of d vs] by blast
  have "doneInv initialCollector" by (simp add: doneInv_def initialCollector_def)
  then have "doneInv (runCollector d initialCollector vs)" by (rule runCollector_done)
  then have B: "(\<exists>v \<in> set vs. paused v \<or> ended v) \<longrightarrow>
      resolved (runCollector d initialCollector vs) \<and>
      progressLog (runCollector d initialCollector vs) \<noteq> [] \<and>
      last (progressLog (runCollector d initialCollector vs)) = Some 100"
    using runCollector_final [of vs d initialCollector] by (auto simp: doneInv_def)
  have C: "\<forall>v s. \<not> paused v \<and> \<not> ended v \<and> lastTime s < currentTime v \<and> d \<noteq> 0 \<longrightarrow>
      progressLog (processFrame d v s) = progressLog s @ [Some (currentTime v / d * 100)]"
    by (simp add: processFrame_log jsDiv_def)
  from A B C show ?thesis by blast
qed

text \<open>
  C3 on a concrete playback of duration 2: a frame at time 1 with a detection, then the
  end of the video with no detection.
\<close>

theorem progress_range_and_completion_witness:
  "progressLog (runCollector 2 initialCollector
     [exVideoTick False 1 (exTick (1/2) (3/10)), exVideoTick True 2 noPose]) =
     [Some 50, Some 100] \<and>
   inPercentRange (Some 50) \<and> inPercentRange (Some 100) \<and>
   resolved (runCollector 2 initialCollector
     [exVideoTick False 1 (exTick (1/2) (3/10)), exVideoTick True 2 noPose])"
proof -
  let ?vs = "[exVideoTick False 1 (exTick (1/2) (3/10)), exVideoTick True 2 noPose]"
  have log: "progressLog (runCollector 2 initialCollector ?vs) = [Some 50, Some 100]"
    by (simp add: initialCollector_def exVideoTick_def processFrame_def jsDiv_def Let_def
        exTick_def)
  have h1: "0 < (2::real) \<and> (\<forall>v \<in> set ?vs. 0 \<le> currentTime v \<and> currentTime v \<le> 2)"
    by (simp add: exVideoTick_def)
  have h2: "\<exists>v \<in> set ?vs. paused v \<or> ended v" by (simp add: exVideoTick_def)
  from progress_range_and_completion [of 2 ?vs] h1 h2
  have "(\<forall>q \<in> set (progressLog (runCollector 2 initialCollector ?vs)). inPercentRange q) \<and>
        resolved (runCollector 2 initialCollector ?vs)" by blast
  with log show ?thesis by simp
qed

text \<open>
  C3 as stated fails: nothing clamps the percentage. With duration 2, a frame presented
  at time 3 emits the progress value 150.
\<close>

theorem progress_unclamped_counterexample:
  "progressLog (runCollector 2 initialCollector [exVideoTick False 3 noPose]) = [Some 150] \<and>
   \<not> inPercentRange (Some 150)"
  by (simp add: initialCollector_def exVideoTick_def processFrame_def jsDiv_def Let_def
      noPose_def inPercentRange_def)

end
